theory Spec2Isabelle
  imports Complex_Main
begin

unbundle bit_operations_syntax

section \<open>Python primitives used by the converter\<close>

text \<open>
  Python integers are unbounded and are modelled as \<open>int\<close>. Every exception the modelled
  code can raise is a value of \<open>error\<close>, and a function that can raise returns
  \<open>error + 'a\<close> with \<open>Inl\<close> for the exception.
\<close>

datatype error = ZeroDivisionError | OverflowError | ValueError string

text \<open>
  The integer nearest to the exact quotient \<open>n / d\<close> of two integers (\<open>d \<noteq> 0\<close>), a tie
  going to the even one, in integer arithmetic: \<open>n div d\<close> is the floor of the quotient
  and \<open>\<bar>n mod d\<bar> / \<bar>d\<bar>\<close> its fractional part.
\<close>

definition round_half_even_div :: "int \<Rightarrow> int \<Rightarrow> int" where
  "round_half_even_div n d =
     (let q = n div d; r = n mod d
      in if 2 * \<bar>r\<bar> < \<bar>d\<bar> then q
         else if 2 * \<bar>r\<bar> > \<bar>d\<bar> then q + 1
         else if even q then q else q + 1)"

text \<open>\<open>int.bit_length\<close> of a positive integer.\<close>

function bit_length :: "int \<Rightarrow> nat" where
  "bit_length n = (if 0 < n then Suc (bit_length (n div 2)) else 0)"
  by pat_completeness auto

termination
  by (relation "measure nat") auto

declare bit_length.simps [simp del]

text \<open>
  For positive \<open>a\<close> and \<open>b\<close>, the integer \<open>L\<close> with \<open>2 ^ L \<le> a / b < 2 ^ (L + 1)\<close>: it is
  the difference of the bit lengths or one less.
\<close>

definition floor_log2 :: "int \<Rightarrow> int \<Rightarrow> int" where
  "floor_log2 a b =
     (let c = int (bit_length a) - int (bit_length b)
      in if b * 2 ^ bit_length a \<le> a * 2 ^ bit_length b then c else c - 1)"

text \<open>
  \<open>round(n / d)\<close> for two Python integers. The true division of two integers raises
  \<open>ZeroDivisionError\<close> for \<open>d = 0\<close> and otherwise yields the double nearest to the exact
  quotient, a tie going to the even significand; it raises \<open>OverflowError\<close> when that
  double would not be finite. A finite double is \<open>m * 2 ^ e\<close> with \<open>\<bar>m\<bar> \<le> 2 ^ 53\<close> and
  \<open>- 1074 \<le> e\<close>: for a quotient \<open>q\<close> with \<open>2 ^ L \<le> \<bar>q\<bar> < 2 ^ (L + 1)\<close> the exponent is
  \<open>e = max (L - 52) (- 1074)\<close>, and \<open>m\<close> is \<open>\<bar>q\<bar> / 2 ^ e\<close> rounded half to even; the double
  is finite when it is below \<open>2 ^ 1024\<close>. Then \<open>round\<close> of the double is the integer
  nearest to it, a tie going to the even integer: the double itself when \<open>0 \<le> e\<close>, and
  \<open>m / 2 ^ (- e)\<close> rounded half to even otherwise.
\<close>

definition py_round_div :: "int \<Rightarrow> int \<Rightarrow> error + int" where
  "py_round_div n d =
     (if d = 0 then Inl ZeroDivisionError
      else if n = 0 then Inr 0
      else
        (let a = \<bar>n\<bar>; b = \<bar>d\<bar>;
             e = max (floor_log2 a b - 52) (- 1074)
         in if e < 0 then
              (let m = round_half_even_div (a * 2 ^ nat (- e)) b
               in Inr (sgn n * sgn d * round_half_even_div m (2 ^ nat (- e))))
            else
              (let m = round_half_even_div a (b * 2 ^ nat e)
               in if 2 ^ 1024 \<le> m * 2 ^ nat e then Inl OverflowError
                  else Inr (sgn n * sgn d * (m * 2 ^ nat e)))))"

text \<open>Uppercase hexadecimal digits of a natural number, as \<open>format(n, 'X')\<close> prints them.\<close>

definition hex_digit :: "nat \<Rightarrow> char" where
  "hex_digit n = ''0123456789ABCDEF'' ! n"

fun hex_of_nat :: "nat \<Rightarrow> string" where
  "hex_of_nat n =
     (if n < 16 then [hex_digit n] else hex_of_nat (n div 16) @ [hex_digit (n mod 16)])"

declare hex_of_nat.simps [simp del]

definition zfill :: "nat \<Rightarrow> string \<Rightarrow> string" where
  "zfill w s = replicate (w - length s) (CHR ''0'') @ s"

text \<open>
  The format specification \<open>0wX\<close> applied to an integer: uppercase hexadecimal, padded
  with zeros to the width \<open>w\<close>; the sign of a negative number is printed first and counts
  towards the width.
\<close>

definition format_0X :: "nat \<Rightarrow> int \<Rightarrow> string" where
  "format_0X w v =
     (if v < 0 then CHR ''-'' # zfill (w - 1) (hex_of_nat (nat (- v)))
      else zfill w (hex_of_nat (nat v)))"

text \<open>\<open>str.upper\<close> on the ASCII range.\<close>

definition upper_char :: "char \<Rightarrow> char" where
  "upper_char c =
     (let n = (of_char c :: nat) in if 97 \<le> n \<and> n \<le> 122 then char_of (n - 32) else c)"

definition upper :: "string \<Rightarrow> string" where
  "upper s = map upper_char s"

text \<open>\<open>str(v)\<close> of an integer: its decimal digits, after a minus sign when negative.\<close>

definition dec_digit :: "nat \<Rightarrow> char" where
  "dec_digit n = ''0123456789'' ! n"

fun dec_of_nat :: "nat \<Rightarrow> string" where
  "dec_of_nat n =
     (if n < 10 then [dec_digit n] else dec_of_nat (n div 10) @ [dec_digit (n mod 10)])"

declare dec_of_nat.simps [simp del]

definition py_str :: "int \<Rightarrow> string" where
  "py_str v = (if v < 0 then CHR ''-'' # dec_of_nat (nat (- v)) else dec_of_nat (nat v))"

text \<open>
  \<open>int(s)\<close> of a string: an optional sign and at least one decimal digit; \<open>None\<close> stands
  for the \<open>ValueError\<close> of a string that is no number. (The blanks and underscores that
  Python also accepts do not occur in the strings \<open>str\<close> produces.)
\<close>

definition digit_val :: "char \<Rightarrow> nat option" where
  "digit_val c =
     (let n = (of_char c :: nat) in if 48 \<le> n \<and> n \<le> 57 then Some (n - 48) else None)"

fun nat_of_dec :: "nat \<Rightarrow> string \<Rightarrow> nat option" where
  "nat_of_dec acc [] = Some acc"
| "nat_of_dec acc (c # cs) =
     (case digit_val c of None \<Rightarrow> None | Some k \<Rightarrow> nat_of_dec (10 * acc + k) cs)"

definition py_int :: "string \<Rightarrow> int option" where
  "py_int s =
     (case s of
        [] \<Rightarrow> None
      | c # cs \<Rightarrow>
          if c = CHR ''-'' then
            (if cs = [] then None else map_option (\<lambda>n. - int n) (nat_of_dec 0 cs))
          else if c = CHR ''+'' then
            (if cs = [] then None else map_option int (nat_of_dec 0 cs))
          else map_option int (nat_of_dec 0 s))"

section \<open>midi_converter.py\<close>

definition hex_lz32 :: "int \<Rightarrow> string" where
  "hex_lz32 v = format_0X 8 (v AND 0xFFFFFFFF)"

text \<open>
  \<open>ConversionContext\<close>. The fields \<open>start_time\<close> and \<open>end_time\<close> are floats that no
  method reads; they are left out.
\<close>

record ConversionContext =
  tick_offset :: int
  source_ppq :: int
  dest_ppq :: int
  scale_value_by :: int

definition convert_time :: "ConversionContext \<Rightarrow> int \<Rightarrow> error + int" where
  "convert_time self t = py_round_div (t * dest_ppq self) (source_ppq self)"

definition convert_time_ro :: "ConversionContext \<Rightarrow> int \<Rightarrow> error + int" where
  "convert_time_ro self t = convert_time self (t - tick_offset self)"

definition convert_time_dtos :: "ConversionContext \<Rightarrow> int \<Rightarrow> error + int" where
  "convert_time_dtos self t = py_round_div (t * source_ppq self) (dest_ppq self)"

text \<open>
  The parsed file as \<open>pretty_midi\<close> hands it over: notes with times in seconds, instruments,
  the resolution (ticks per quarter note) and the library's \<open>time_to_tick\<close>, which is taken
  as a parameter.
\<close>

record Note =
  velocity :: int
  pitch :: int
  start :: real
  end_time :: real

record Instrument =
  program :: int
  is_drum :: bool
  "notes" :: "Note list"

record PrettyMIDI =
  resolution :: int
  instruments :: "Instrument list"
  time_to_tick :: "real \<Rightarrow> int"

text \<open>The dictionaries the converter returns: a note row and a clip.\<close>

record NoteRow =
  row_y :: string
  noteDataWithLift :: string

record Clip =
  note_rows :: "NoteRow list"
  length_ticks :: int

text \<open>The records the converter hands to its logger, with the values they interpolate.\<close>

datatype log_record =
    SkippingDrumTrack nat
  | ProcessingTrack nat int
  | NoNotesFound nat
  | OutOfOrderMIDI int int nat
  | OverlappingNote int int nat
  | SortedYValues nat "int list"
  | ProcessedTrack nat int

datatype log_level = INFO | WARNING

fun level :: "log_record \<Rightarrow> log_level" where
  "level (SkippingDrumTrack _) = INFO"
| "level (ProcessingTrack _ _) = INFO"
| "level (NoNotesFound _) = WARNING"
| "level (OutOfOrderMIDI _ _ _) = WARNING"
| "level (OverlappingNote _ _ _) = WARNING"
| "level (SortedYValues _ _) = INFO"
| "level (ProcessedTrack _ _) = INFO"

text \<open>
  The local variables of \<open>convert_midi_to_clips\<close> that the loops over one track update,
  and the log written so far.
\<close>

record frame =
  clip_max :: int
  rows :: "NoteRow list"
  laneh :: string
  last_start :: int
  last_end :: int
  logs :: "log_record list"

text \<open>The body of the loop over the notes of one lane.\<close>

definition encode_note :: "PrettyMIDI \<Rightarrow> ConversionContext \<Rightarrow> nat \<Rightarrow> frame \<Rightarrow> Note \<Rightarrow> error + frame" where
  "encode_note midi context track_num f note =
     (let t_start_tick = time_to_tick midi (start note);
          t_dur_tick = time_to_tick midi (end_time note) - t_start_tick;
          t_end_tick = t_start_tick + t_dur_tick;
          f1 = (if t_start_tick \<le> last_start f
                then f\<lparr>logs := logs f @ [OutOfOrderMIDI t_start_tick (last_start f) track_num]\<rparr>
                else f);
          f2 = (if t_start_tick < last_end f1
                then f1\<lparr>logs := logs f1 @ [OverlappingNote t_start_tick (last_end f1) track_num]\<rparr>
                else f1);
          f3 = f2\<lparr>last_start := t_start_tick, last_end := t_end_tick\<rparr>
      in case convert_time context t_start_tick of
           Inl e \<Rightarrow> Inl e
         | Inr t_dstart \<Rightarrow>
             (case convert_time context t_dur_tick of
                Inl e \<Rightarrow> Inl e
              | Inr t_ddur \<Rightarrow>
                  (let t_dnote_end = t_dstart + t_ddur;
                       f4 = (if t_dnote_end > clip_max f3 then f3\<lparr>clip_max := t_dnote_end\<rparr> else f3);
                       t_dvel = min (velocity note) 127;
                       lift_val = ''40'';
                       h_cc = ''14'';
                       h_start = hex_lz32 t_dstart;
                       h_dur = hex_lz32 t_ddur;
                       h_vel = format_0X 2 t_dvel;
                       h = h_start @ h_dur @ h_vel @ lift_val @ h_cc
                   in Inr (f4\<lparr>laneh := laneh f4 @ upper h\<rparr>))))"

fun encode_notes :: "PrettyMIDI \<Rightarrow> ConversionContext \<Rightarrow> nat \<Rightarrow> frame \<Rightarrow> Note list \<Rightarrow> error + frame" where
  "encode_notes midi context track_num f [] = Inr f"
| "encode_notes midi context track_num f (note # rest) =
     (case encode_note midi context track_num f note of
        Inl e \<Rightarrow> Inl e
      | Inr f' \<Rightarrow> encode_notes midi context track_num f' rest)"

text \<open>The body of the loop over the lanes, and the loop.\<close>

definition encode_lane :: "PrettyMIDI \<Rightarrow> ConversionContext \<Rightarrow> nat \<Rightarrow> frame \<Rightarrow> int \<times> Note list \<Rightarrow> error + frame" where
  "encode_lane midi context track_num f lane =
     (let pitch_notes_sorted = sort_key start (snd lane)
      in case encode_notes midi context track_num
                (f\<lparr>laneh := ''0x'', last_start := - 1, last_end := - 1\<rparr>) pitch_notes_sorted of
           Inl e \<Rightarrow> Inl e
         | Inr f' \<Rightarrow>
             Inr (f'\<lparr>rows := rows f' @ [\<lparr>row_y = py_str (fst lane), noteDataWithLift = laneh f'\<rparr>]\<rparr>))"

fun encode_lanes :: "PrettyMIDI \<Rightarrow> ConversionContext \<Rightarrow> nat \<Rightarrow> frame \<Rightarrow> (int \<times> Note list) list \<Rightarrow> error + frame" where
  "encode_lanes midi context track_num f [] = Inr f"
| "encode_lanes midi context track_num f (lane # rest) =
     (case encode_lane midi context track_num f lane of
        Inl e \<Rightarrow> Inl e
      | Inr f' \<Rightarrow> encode_lanes midi context track_num f' rest)"

text \<open>
  The dictionary \<open>lanes\<close>, in insertion order: \<open>lanes.setdefault(pitch, []).append(note)\<close>.
\<close>

fun setdefault_append :: "int \<Rightarrow> Note \<Rightarrow> (int \<times> Note list) list \<Rightarrow> (int \<times> Note list) list" where
  "setdefault_append k n [] = [(k, [n])]"
| "setdefault_append k n ((k', ns) # rest) =
     (if k = k' then (k', ns @ [n]) # rest else (k', ns) # setdefault_append k n rest)"

definition organize_lanes :: "Note list \<Rightarrow> (int \<times> Note list) list" where
  "organize_lanes notes_sorted =
     foldl (\<lambda>lanes note. setdefault_append (pitch note) note lanes) [] notes_sorted"

text \<open>
  \<open>sorted(note_rows, key=lambda x: int(x["y"]))\<close>: the keys are computed first, and one
  that is no number raises.
\<close>

definition sorted_by_int_y :: "NoteRow list \<Rightarrow> error + NoteRow list" where
  "sorted_by_int_y nrs =
     (if list_all (\<lambda>x. py_int (row_y x) \<noteq> None) nrs
      then Inr (sort_key (\<lambda>x. the (py_int (row_y x))) nrs)
      else Inl (ValueError ''invalid literal for int()''))"

text \<open>\<open>max\<close> over a sequence that the caller has checked to be non-empty.\<close>

fun max_list :: "int list \<Rightarrow> int" where
  "max_list [] = 0"
| "max_list (x # xs) = fold max xs x"

text \<open>
  The body of the loop over the instruments: the clips and the log so far, the number of
  the track and the instrument.
\<close>

definition convert_track :: "PrettyMIDI \<Rightarrow> Clip list \<times> log_record list \<Rightarrow> nat \<times> Instrument \<Rightarrow> error + Clip list \<times> log_record list" where
  "convert_track midi acc tr =
     (let clip_data = fst acc; lg = snd acc; track_num = fst tr; instrument = snd tr
      in if is_drum instrument then Inr (clip_data, lg @ [SkippingDrumTrack track_num])
         else
           (let lg1 = lg @ [ProcessingTrack track_num (program instrument)]
            in if notes instrument = [] then Inr (clip_data, lg1 @ [NoNotesFound track_num])
               else
                 (let notes_sorted = sort_key start (notes instrument);
                      max_tick = max_list (map (\<lambda>note. time_to_tick midi (end_time note)) notes_sorted);
                      context = \<lparr>tick_offset = 0, source_ppq = resolution midi, dest_ppq = 48,
                                 scale_value_by = 1\<rparr>
                  in case convert_time context max_tick of
                       Inl e \<Rightarrow> Inl e
                     | Inr cm \<Rightarrow>
                         (case encode_lanes midi context track_num
                                 \<lparr>clip_max = cm, rows = [], laneh = [], last_start = - 1,
                                  last_end = - 1, logs = lg1\<rparr>
                                 (organize_lanes notes_sorted) of
                            Inl e \<Rightarrow> Inl e
                          | Inr f \<Rightarrow>
                              (case sorted_by_int_y (rows f) of
                                 Inl e \<Rightarrow> Inl e
                               | Inr note_rows_sorted \<Rightarrow>
                                   (let sorted_y_values = map (\<lambda>nr. the (py_int (row_y nr))) note_rows_sorted
                                    in Inr (clip_data @ [\<lparr>note_rows = note_rows_sorted, length_ticks = clip_max f\<rparr>],
                                            logs f @ [SortedYValues track_num sorted_y_values,
                                                      ProcessedTrack track_num (clip_max f)])))))))"

fun convert_tracks :: "PrettyMIDI \<Rightarrow> Clip list \<times> log_record list \<Rightarrow> (nat \<times> Instrument) list \<Rightarrow> error + Clip list \<times> log_record list" where
  "convert_tracks midi acc [] = Inr acc"
| "convert_tracks midi acc (tr # rest) =
     (case convert_track midi acc tr of
        Inl e \<Rightarrow> Inl e
      | Inr acc' \<Rightarrow> convert_tracks midi acc' rest)"

definition convert_midi_to_clips :: "PrettyMIDI \<Rightarrow> error + Clip list \<times> log_record list" where
  "convert_midi_to_clips midi =
     convert_tracks midi ([], []) (zip [1 ..< Suc (length (instruments midi))] (instruments midi))"

section \<open>xml_injector.py\<close>

text \<open>
  An element of \<open>xml.etree.ElementTree\<close>: tag, attribute dictionary (in insertion order),
  text, tail and children. The methods of the library that the injector calls follow.
\<close>

datatype Element =
  Element (tag: string) (attrib: "(string \<times> string) list") (elem_text: "string option")
    (tail: "string option") (children: "Element list")

text \<open>\<open>e.find(t)\<close> with a plain tag: the first child with that tag.\<close>

fun find_child :: "string \<Rightarrow> Element list \<Rightarrow> Element option" where
  "find_child t [] = None"
| "find_child t (c # cs) = (if tag c = t then Some c else find_child t cs)"

text \<open>
  \<open>e.find(".//t")\<close>: the first element with that tag below \<open>e\<close>, in document order
  (a child before its own descendants, these before the next child).
\<close>

fun find_desc :: "string \<Rightarrow> Element \<Rightarrow> Element option"
  and find_desc_list :: "string \<Rightarrow> Element list \<Rightarrow> Element option" where
  "find_desc t (Element tg a tx ta cs) = find_desc_list t cs"
| "find_desc_list t [] = None"
| "find_desc_list t (c # cs) =
     (if tag c = t then Some c
      else case find_desc t c of Some e \<Rightarrow> Some e | None \<Rightarrow> find_desc_list t cs)"

text \<open>
  The element that \<open>find(".//t")\<close> returns is an object inside the tree, and the injector
  mutates it in place. \<open>modify_desc t g e\<close> is the tree \<open>e\<close> after the mutation \<open>g\<close> of
  that object.
\<close>

fun modify_desc :: "string \<Rightarrow> (Element \<Rightarrow> Element) \<Rightarrow> Element \<Rightarrow> Element"
  and modify_desc_list :: "string \<Rightarrow> (Element \<Rightarrow> Element) \<Rightarrow> Element list \<Rightarrow> Element list" where
  "modify_desc t g (Element tg a tx ta cs) = Element tg a tx ta (modify_desc_list t g cs)"
| "modify_desc_list t g [] = []"
| "modify_desc_list t g (c # cs) =
     (if tag c = t then g c # cs
      else if find_desc t c \<noteq> None then modify_desc t g c # cs
      else c # modify_desc_list t g cs)"

text \<open>
  \<open>e.clear()\<close>: "removes all subelements, clears all attributes, and sets the text and
  tail attributes to None".
\<close>

definition clear :: "Element \<Rightarrow> Element" where
  "clear e = Element (tag e) [] None None []"

text \<open>\<open>e.set(k, v)\<close> and \<open>e.get(k)\<close> on the attribute dictionary, \<open>e.append(c)\<close>.\<close>

fun dict_set :: "string \<Rightarrow> string \<Rightarrow> (string \<times> string) list \<Rightarrow> (string \<times> string) list" where
  "dict_set k v [] = [(k, v)]"
| "dict_set k v ((k', v') # kvs) =
     (if k = k' then (k, v) # kvs else (k', v') # dict_set k v kvs)"

definition set_attr :: "string \<Rightarrow> string \<Rightarrow> Element \<Rightarrow> Element" where
  "set_attr k v e = Element (tag e) (dict_set k v (attrib e)) (elem_text e) (tail e) (children e)"

definition get_attr :: "string \<Rightarrow> Element \<Rightarrow> string option" where
  "get_attr k e = map_of (attrib e) k"

definition append_elem :: "Element \<Rightarrow> Element \<Rightarrow> Element" where
  "append_elem e c = Element (tag e) (attrib e) (elem_text e) (tail e) (children e @ [c])"

text \<open>
  The world around the injector: what parsing the file at a path gives (an element tree
  or the exception raised), what writing to a path raises (if anything), the process-wide
  random generator as the sequence of its draws with the position reached, and the
  records handed to the logger.
\<close>

datatype io_error = FileNotFoundError | ParseError | PermissionError

datatype failure = Raised error | RaisedIO io_error

datatype injector_log =
    FailedToLoadBase failure
  | FailedToInject failure
  | WroteModified nat string

record world =
  files :: "string \<Rightarrow> io_error + Element"
  write_error :: "string \<Rightarrow> io_error option"
  draws :: "nat \<Rightarrow> nat"
  drawn :: nat
  logged :: "injector_log list"

record XMLInjector =
  base_xml_path :: string
  used_presets :: "string set"
  used_colors :: "int set"

definition PRESET_NAMES :: "string list" where
  "PRESET_NAMES =
     [''000 Rich Saw Bass'', ''001 Sync Bass'', ''002 Basic Square Bass'',
      ''003 Synthwave Bass'', ''005 Sweet Mono Bass'', ''006 Vaporwave Bass'',
      ''007 Detuned Saw Bass'', ''009 Hoover Bass'', ''019 Fizzy Strings'', ''026 Pw Organ'',
      ''030 Distant Porta'', ''040 Spacer Leader'', ''073 Piano'', ''074 Electric Piano'',
      ''076 Organ'', ''078 House'']"

text \<open>
  \<open>random.choice(seq)\<close> on a non-empty sequence: the element at the next draw, reduced
  modulo the length. The sequence is the list of a Python set, whose order is not fixed;
  since the draw is arbitrary, listing the set in the order of the pool gives the same
  possible outcomes.
\<close>

definition choice :: "'a list \<Rightarrow> world \<Rightarrow> 'a \<times> world" where
  "choice seq w = (seq ! (draws w (drawn w) mod length seq), w\<lparr>drawn := drawn w + 1\<rparr>)"

definition get_unique_preset :: "XMLInjector \<Rightarrow> world \<Rightarrow> (error + string) \<times> XMLInjector \<times> world" where
  "get_unique_preset self w =
     (let available_presets = filter (\<lambda>p. p \<notin> used_presets self) (remdups PRESET_NAMES)
      in if available_presets = [] then (Inl (ValueError ''No more unique presets available''), self, w)
         else
           (let (preset, w') = choice available_presets w
            in (Inr preset, self\<lparr>used_presets := insert preset (used_presets self)\<rparr>, w')))"

definition get_unique_color :: "XMLInjector \<Rightarrow> world \<Rightarrow> (error + int) \<times> XMLInjector \<times> world" where
  "get_unique_color self w =
     (let available_colors = filter (\<lambda>c. c \<notin> used_colors self) [- 63 .. 63]
      in if available_colors = [] then (Inl (ValueError ''No more unique colors available''), self, w)
         else
           (let (color, w') = choice available_colors w
            in (Inr color, self\<lparr>used_colors := insert color (used_colors self)\<rparr>, w')))"

definition load_xml :: "XMLInjector \<Rightarrow> world \<Rightarrow> (io_error + Element) \<times> world" where
  "load_xml self w =
     (case files w (base_xml_path self) of
        Inl e \<Rightarrow> (Inl e, w\<lparr>logged := logged w @ [FailedToLoadBase (RaisedIO e)]\<rparr>)
      | Inr tree \<Rightarrow> (Inr tree, w))"

text \<open>
  The loop over \<open>clip_data\<close>. Its state is the injector, the world and the
  \<open>sessionClips\<close> element being rebuilt; the body returns the exception it raises, if any,
  with the state reached.
\<close>

record inject_state =
  injector :: XMLInjector
  env :: world
  session_clips :: Element

definition add_note_row :: "NoteRow \<Rightarrow> Element \<Rightarrow> Element" where
  "add_note_row note_row note_rows_element =
     append_elem note_rows_element
       (set_attr ''noteDataWithLift'' (noteDataWithLift note_row)
          (set_attr ''y'' (row_y note_row) (Element ''noteRow'' [] None None [])))"

definition inject_clip :: "Element \<Rightarrow> inject_state \<Rightarrow> Clip \<Rightarrow> error option \<times> inject_state" where
  "inject_clip template_clip s data =
     (let new_clip1 = set_attr ''section'' ''0'' template_clip
      in case get_unique_preset (injector s) (env s) of
           (Inl e, self1, w1) \<Rightarrow> (Some e, s\<lparr>injector := self1, env := w1\<rparr>)
         | (Inr preset, self1, w1) \<Rightarrow>
             (let new_clip2 = set_attr ''instrumentPresetName'' preset new_clip1
              in case get_unique_color self1 w1 of
                   (Inl e, self2, w2) \<Rightarrow> (Some e, s\<lparr>injector := self2, env := w2\<rparr>)
                 | (Inr color, self2, w2) \<Rightarrow>
                     (let new_clip3 = set_attr ''colourOffset'' (py_str color) new_clip2;
                          new_clip4 = set_attr ''length'' (py_str (length_ticks data)) new_clip3
                      in if find_desc ''noteRows'' new_clip4 = None
                         then (Some (ValueError ''Could not find noteRows''),
                               s\<lparr>injector := self2, env := w2\<rparr>)
                         else
                           (let new_clip5 =
                                  modify_desc ''noteRows''
                                    (\<lambda>note_rows_element. fold add_note_row (note_rows data) (clear note_rows_element))
                                    new_clip4
                            in (None, \<lparr>injector = self2, env = w2,
                                       session_clips = append_elem (session_clips s) new_clip5\<rparr>)))))"

fun inject_clips :: "Element \<Rightarrow> inject_state \<Rightarrow> Clip list \<Rightarrow> error option \<times> inject_state" where
  "inject_clips template_clip s [] = (None, s)"
| "inject_clips template_clip s (data # rest) =
     (case inject_clip template_clip s data of
        (Some e, s') \<Rightarrow> (Some e, s')
      | (None, s') \<Rightarrow> inject_clips template_clip s' rest)"

definition output_path :: string where
  "output_path = ''data/deluge_songs/output.xml''"

definition too_many_clips :: "nat \<Rightarrow> error" where
  "too_many_clips n =
     ValueError (''Too many clips ('' @ py_str (int n) @ ''). Maximum allowed: ''
                 @ py_str (int (length PRESET_NAMES)))"

text \<open>
  \<open>inject_multiple_clips\<close> returns the success flag; the injector and the world after the
  call are returned with it. Every exception ends in the handler, which logs it and
  returns \<open>False\<close>.
\<close>

definition failed :: "failure \<Rightarrow> XMLInjector \<Rightarrow> world \<Rightarrow> bool \<times> XMLInjector \<times> world" where
  "failed e self w = (False, self, w\<lparr>logged := logged w @ [FailedToInject e]\<rparr>)"

definition inject_multiple_clips :: "XMLInjector \<Rightarrow> world \<Rightarrow> Clip list \<Rightarrow> bool \<times> XMLInjector \<times> world" where
  "inject_multiple_clips self w clip_data =
     (if length clip_data > length PRESET_NAMES
      then failed (Raised (too_many_clips (length clip_data))) self w
      else
        (case load_xml self w of
           (Inl e, w1) \<Rightarrow> failed (RaisedIO e) self w1
         | (Inr root_elem, w1) \<Rightarrow>
             (let self1 = self\<lparr>used_presets := {}, used_colors := {}\<rparr>
              in case find_desc ''sessionClips'' root_elem of
                   None \<Rightarrow> failed (Raised (ValueError ''Could not find sessionClips element'')) self1 w1
                 | Some session_clips0 \<Rightarrow>
                     (case find_child ''instrumentClip'' (children session_clips0) of
                        None \<Rightarrow> failed (Raised (ValueError ''Could not find template instrumentClip'')) self1 w1
                      | Some template_clip \<Rightarrow>
                          (case inject_clips template_clip
                                  \<lparr>injector = self1, env = w1, session_clips = clear session_clips0\<rparr>
                                  clip_data of
                             (Some e, s) \<Rightarrow> failed (Raised e) (injector s) (env s)
                           | (None, s) \<Rightarrow>
                               (case write_error (env s) output_path of
                                  Some e \<Rightarrow> failed (RaisedIO e) (injector s) (env s)
                                | None \<Rightarrow>
                                    (True, injector s,
                                     (env s)\<lparr>files := (files (env s))
                                                (output_path := Inr (modify_desc ''sessionClips'' (\<lambda>_. session_clips s) root_elem)),
                                              logged := logged (env s) @ [WroteModified (length clip_data) output_path]\<rparr>)))))))"

section \<open>Notions of the specification\<close>

text \<open>
  Rounding half to even, in the words of the specification: \<open>r\<close> is an integer nearest
  to the real number \<open>x\<close>, and the even one where two integers are equally near.
\<close>

definition is_round_half_even :: "real \<Rightarrow> int \<Rightarrow> bool" where
  "is_round_half_even x r \<longleftrightarrow>
     \<bar>x - of_int r\<bar> \<le> 1 / 2 \<and> (\<bar>x - of_int r\<bar> = 1 / 2 \<longrightarrow> even r)"

text \<open>
  The loop body for one note converts its start tick and its duration. When neither
  conversion raises (\<open>note_converts\<close>), the locals \<open>t_dstart\<close>, \<open>t_ddur\<close> and \<open>h.upper()\<close>
  have these values: the rescaled start, the rescaled duration and the record appended to
  the lane.
\<close>

definition note_converts :: "PrettyMIDI \<Rightarrow> ConversionContext \<Rightarrow> Note \<Rightarrow> bool" where
  "note_converts midi context note \<longleftrightarrow>
     \<not> isl (convert_time context (time_to_tick midi (start note)))
     \<and> \<not> isl (convert_time context
                 (time_to_tick midi (end_time note) - time_to_tick midi (start note)))"

definition t_dstart :: "PrettyMIDI \<Rightarrow> ConversionContext \<Rightarrow> Note \<Rightarrow> int" where
  "t_dstart midi context note = projr (convert_time context (time_to_tick midi (start note)))"

definition t_ddur :: "PrettyMIDI \<Rightarrow> ConversionContext \<Rightarrow> Note \<Rightarrow> int" where
  "t_ddur midi context note =
     projr (convert_time context
              (time_to_tick midi (end_time note) - time_to_tick midi (start note)))"

definition note_hex :: "PrettyMIDI \<Rightarrow> ConversionContext \<Rightarrow> Note \<Rightarrow> string" where
  "note_hex midi context note =
     upper (hex_lz32 (t_dstart midi context note) @ hex_lz32 (t_ddur midi context note)
            @ format_0X 2 (min (velocity note) 127) @ ''40'' @ ''14'')"

text \<open>
  The warnings the loop body logs for one note, given the previous start and end, and those
  the loop logs for the notes of a lane in turn.
\<close>

definition note_warnings :: "PrettyMIDI \<Rightarrow> nat \<Rightarrow> int \<Rightarrow> int \<Rightarrow> Note \<Rightarrow> log_record list" where
  "note_warnings midi track_num ls le note =
     (if time_to_tick midi (start note) \<le> ls
      then [OutOfOrderMIDI (time_to_tick midi (start note)) ls track_num] else [])
     @ (if time_to_tick midi (start note) < le
        then [OverlappingNote (time_to_tick midi (start note)) le track_num] else [])"

fun lane_warnings :: "PrettyMIDI \<Rightarrow> nat \<Rightarrow> int \<Rightarrow> int \<Rightarrow> Note list \<Rightarrow> log_record list" where
  "lane_warnings midi track_num ls le [] = []"
| "lane_warnings midi track_num ls le (note # rest) =
     note_warnings midi track_num ls le note
     @ lane_warnings midi track_num (time_to_tick midi (start note))
         (time_to_tick midi (end_time note)) rest"

text \<open>
  The note row the loop over the lanes appends for one lane (pitch and notes) when the
  conversion does not raise, and the context \<open>convert_midi_to_clips\<close> builds for a file.
\<close>

definition lane_row :: "PrettyMIDI \<Rightarrow> ConversionContext \<Rightarrow> int \<times> Note list \<Rightarrow> NoteRow" where
  "lane_row midi context lane =
     \<lparr>row_y = py_str (fst lane),
      noteDataWithLift = ''0x'' @ concat (map (note_hex midi context) (sort_key start (snd lane)))\<rparr>"

definition track_context :: "PrettyMIDI \<Rightarrow> ConversionContext" where
  "track_context midi =
     \<lparr>tick_offset = 0, source_ppq = resolution midi, dest_ppq = 48, scale_value_by = 1\<rparr>"

text \<open>
  The invariant of the loop that fills the dictionary \<open>lanes\<close>: after the notes \<open>pre\<close>,
  the keys are the pitches seen, each once, and a lane holds the notes of its pitch in the
  order they came.
\<close>

definition lanes_inv :: "Note list \<Rightarrow> (int \<times> Note list) list \<Rightarrow> bool" where
  "lanes_inv pre l \<longleftrightarrow>
     distinct (map fst l) \<and> fst ` set l = pitch ` set pre
     \<and> (\<forall>lane\<in>set l. snd lane = filter (\<lambda>m. pitch m = fst lane) pre)"

text \<open>
  What \<open>convert_midi_to_clips\<close> makes of one instrument that is no drum track and has notes:
  the rows of its lanes in ascending order of the key, and a length that no rescaled note
  end exceeds.
\<close>

definition clip_of_track :: "PrettyMIDI \<Rightarrow> Instrument \<Rightarrow> Clip \<Rightarrow> bool" where
  "clip_of_track midi instrument clip \<longleftrightarrow>
     (\<forall>n\<in>set (notes instrument). note_converts midi (track_context midi) n)
     \<and> note_rows clip =
         map (lane_row midi (track_context midi))
           (sort_key fst (organize_lanes (sort_key start (notes instrument))))
     \<and> (\<forall>n\<in>set (notes instrument).
           t_dstart midi (track_context midi) n + t_ddur midi (track_context midi) n
             \<le> length_ticks clip)"

definition surviving :: "Instrument \<Rightarrow> bool" where
  "surviving instrument \<longleftrightarrow> \<not> is_drum instrument \<and> notes instrument \<noteq> []"

text \<open>No conversion that \<open>convert_midi_to_clips\<close> makes for the instrument raises.\<close>

definition track_converts :: "PrettyMIDI \<Rightarrow> Instrument \<Rightarrow> bool" where
  "track_converts midi instrument \<longleftrightarrow>
     \<not> isl (convert_time (track_context midi)
              (max_list (map (\<lambda>note. time_to_tick midi (end_time note))
                           (sort_key start (notes instrument)))))
     \<and> (\<forall>n\<in>set (notes instrument). note_converts midi (track_context midi) n)"

text \<open>
  An example file at 96 ticks per quarter note, with ticks read off as the integer part of
  the time: a track with two overlapping notes on pitch 60 and a loud note on pitch 48, a
  drum track and a track without notes; and what the converter returns for it.
\<close>

definition example_midi :: PrettyMIDI where
  "example_midi =
     \<lparr>resolution = 96,
      instruments =
        [\<lparr>program = 0, is_drum = False,
          notes = [\<lparr>velocity = 90, pitch = 60, start = 50, end_time = 150\<rparr>,
                   \<lparr>velocity = 200, pitch = 48, start = 10, end_time = 20\<rparr>,
                   \<lparr>velocity = 100, pitch = 60, start = 0, end_time = 100\<rparr>]\<rparr>,
         \<lparr>program = 0, is_drum = True,
          notes = [\<lparr>velocity = 90, pitch = 60, start = 50, end_time = 150\<rparr>]\<rparr>,
         \<lparr>program = 3, is_drum = False, notes = []\<rparr>],
      time_to_tick = floor\<rparr>"

definition example_clips :: "Clip list" where
  "example_clips =
     [\<lparr>note_rows =
         [\<lparr>row_y = ''48'', noteDataWithLift = ''0x00000005000000057F4014''\<rparr>,
          \<lparr>row_y = ''60'',
           noteDataWithLift = ''0x000000000000003264401400000019000000325A4014''\<rparr>],
       length_ticks = 75\<rparr>]"

definition example_log :: "log_record list" where
  "example_log =
     [ProcessingTrack 1 0, OverlappingNote 50 100 1, SortedYValues 1 [48, 60],
      ProcessedTrack 1 75, SkippingDrumTrack 2, ProcessingTrack 3 3, NoNotesFound 3]"

text \<open>
  An example template, whose \<open>sessionClips\<close> element carries an attribute and a text, a
  world that holds it at the path of an example injector, and two clips to inject.
\<close>

definition example_template :: Element where
  "example_template =
     Element ''song'' [] None None
       [Element ''sessionClips'' [(''foo'', ''bar'')] (Some ''txt'') None
          [Element ''instrumentClip'' [(''length'', ''1'')] None None
             [Element ''noteRows'' [] None None [Element ''noteRow'' [] None None []]]]]"

definition example_world :: world where
  "example_world =
     \<lparr>files = (\<lambda>p. if p = ''base.XML'' then Inr example_template else Inl FileNotFoundError),
      write_error = (\<lambda>p. None),
      draws = (\<lambda>i. 7 * i + 3),
      drawn = 0,
      logged = []\<rparr>"

definition example_injector :: XMLInjector where
  "example_injector = \<lparr>base_xml_path = ''base.XML'', used_presets = {}, used_colors = {}\<rparr>"

definition example_clip_data :: "Clip list" where
  "example_clip_data =
     [\<lparr>note_rows = [\<lparr>row_y = ''48'', noteDataWithLift = ''0x00000005000000057F4014''\<rparr>],
       length_ticks = 75\<rparr>,
      \<lparr>note_rows = [], length_ticks = 5\<rparr>]"

text \<open>
  The invariant of the loop over \<open>clip_data\<close>: the clips appended so far carry the presets
  \<open>ps\<close> and the colours \<open>cs\<close>, which are the used ones, without repetition and from the
  pools, and every clip has the tag of the template clip.
\<close>

definition alloc_inv :: "Element \<Rightarrow> inject_state \<Rightarrow> string list \<Rightarrow> int list \<Rightarrow> bool" where
  "alloc_inv template_clip s ps cs \<longleftrightarrow>
     map (get_attr ''instrumentPresetName'') (children (session_clips s)) = map Some ps
     \<and> map (get_attr ''colourOffset'') (children (session_clips s)) = map (\<lambda>c. Some (py_str c)) cs
     \<and> distinct ps \<and> set ps = used_presets (injector s) \<and> set ps \<subseteq> set PRESET_NAMES
     \<and> distinct cs \<and> set cs = used_colors (injector s) \<and> set cs \<subseteq> {- 63 .. 63}
     \<and> (\<forall>c\<in>set (children (session_clips s)). tag c = tag template_clip)"

text \<open>What a call leaves of the world apart from the random generator.\<close>

definition same_files :: "world \<Rightarrow> world \<Rightarrow> bool" where
  "same_files w w' \<longleftrightarrow>
     files w' = files w \<and> write_error w' = write_error w \<and> logged w' = logged w"

section \<open>Rounding\<close>

lemma round_half_even_div_err:
  assumes "d \<noteq> 0"
  shows "2 * \<bar>round_half_even_div n d * d - n\<bar> \<le> \<bar>d\<bar>"
proof -
  define q r where "q = n div d" and "r = n mod d"
  have n: "n = q * d + r" by (simp add: q_def r_def)
  have q1: "(q + 1) * d - n = d - r" by (simp add: n algebra_simps)
  have q0: "q * d - n = - r" by (simp add: n)
  have r: "(0 < d \<and> 0 \<le> r \<and> r < d) \<or> (d < 0 \<and> d < r \<and> r \<le> 0)"
  proof (cases "0 < d")
    case True
    then show ?thesis by (simp add: r_def)
  next
    case False
    with assms have "d < 0" by simp
    then show ?thesis by (simp add: r_def)
  qed
  have "round_half_even_div n d = (if 2 * \<bar>r\<bar> < \<bar>d\<bar> then q
         else if 2 * \<bar>r\<bar> > \<bar>d\<bar> then q + 1
         else if even q then q else q + 1)"
    by (simp add: round_half_even_div_def Let_def q_def r_def)
  then consider (lo) "round_half_even_div n d = q" "2 * \<bar>r\<bar> \<le> \<bar>d\<bar>"
    | (hi) "round_half_even_div n d = q + 1" "2 * \<bar>r\<bar> \<ge> \<bar>d\<bar>"
    by (auto split: if_splits)
  then show ?thesis
  proof cases
    case lo
    then show ?thesis using q0 by simp
  next
    case hi
    then have "round_half_even_div n d * d - n = d - r" using q1 by simp
    moreover have "2 * \<bar>d - r\<bar> \<le> \<bar>d\<bar>" using hi(2) r by auto
    ultimately show ?thesis by simp
  qed
qed

lemma round_half_even_div_exact: "d dvd n \<Longrightarrow> round_half_even_div n d = n div d"
  by (auto simp: round_half_even_div_def Let_def)

lemma is_round_half_even_unique:
  assumes "is_round_half_even x r" "is_round_half_even x r'"
  shows "r = r'"
proof (rule ccontr)
  assume ne: "r \<noteq> r'"
  have a: "\<bar>x - of_int r\<bar> \<le> 1 / 2" "\<bar>x - of_int r'\<bar> \<le> 1 / 2"
    using assms by (auto simp: is_round_half_even_def)
  have "\<bar>real_of_int r - of_int r'\<bar> \<le> 1" using a by linarith
  then have "\<bar>r - r'\<bar> \<le> 1" by linarith
  with ne have d: "r' = r + 1 \<or> r = r' + 1" by linarith
  then have "\<bar>x - of_int r\<bar> = 1 / 2 \<and> \<bar>x - of_int r'\<bar> = 1 / 2"
  proof
    assume "r' = r + 1"
    then have "real_of_int r' = of_int r + 1" by simp
    then show ?thesis using a by linarith
  next
    assume "r = r' + 1"
    then have "real_of_int r = of_int r' + 1" by simp
    then show ?thesis using a by linarith
  qed
  then have "even r \<and> even r'" using assms by (auto simp: is_round_half_even_def)
  with d show False by auto
qed

lemma round_half_even_div_half_even:
  assumes "d \<noteq> 0"
  shows "is_round_half_even (of_int n / of_int d) (round_half_even_div n d)"
proof -
  define q r where "q = n div d" and "r = n mod d"
  have n: "n = q * d + r" by (simp add: q_def r_def)
  have r: "(0 < d \<and> 0 \<le> r \<and> r < d) \<or> (d < 0 \<and> d < r \<and> r \<le> 0)"
  proof (cases "0 < d")
    case True
    then show ?thesis by (simp add: r_def)
  next
    case False
    with assms have "d < 0" by simp
    then show ?thesis by (simp add: r_def)
  qed
  have x: "real_of_int n / of_int d = of_int q + of_int r / of_int d"
    using assms by (simp add: n field_simps)
  have f: "0 \<le> real_of_int r / of_int d" "real_of_int r / of_int d < 1"
          "real_of_int r / of_int d = of_int \<bar>r\<bar> / of_int \<bar>d\<bar>"
    using r by (auto simp: field_simps)
  have cmp: "(2 * \<bar>r\<bar> < \<bar>d\<bar>) = (real_of_int \<bar>r\<bar> / of_int \<bar>d\<bar> < 1 / 2)"
            "(2 * \<bar>r\<bar> > \<bar>d\<bar>) = (real_of_int \<bar>r\<bar> / of_int \<bar>d\<bar> > 1 / 2)"
    using assms by (auto simp: field_simps)
  have p: "round_half_even_div n d = (if 2 * \<bar>r\<bar> < \<bar>d\<bar> then q
         else if 2 * \<bar>r\<bar> > \<bar>d\<bar> then q + 1
         else if even q then q else q + 1)"
    by (simp add: round_half_even_div_def Let_def q_def r_def)
  define y where "y = real_of_int \<bar>r\<bar> / of_int \<bar>d\<bar>"
  have y: "0 \<le> y" "y < 1" using f by (simp_all add: y_def)
  show ?thesis
    unfolding is_round_half_even_def x f(3) p cmp y_def [symmetric]
    using y by auto
qed

lemma round_half_even_div_eqI:
  "d \<noteq> 0 \<Longrightarrow> is_round_half_even (of_int n / of_int d) r \<Longrightarrow> round_half_even_div n d = r"
  using round_half_even_div_half_even is_round_half_even_unique by blast

lemma is_round_half_even_minus: "is_round_half_even (- x) (- r) = is_round_half_even x r"
proof -
  have "\<bar>- x - of_int (- r)\<bar> = \<bar>x - of_int r\<bar>" by simp
  then show ?thesis unfolding is_round_half_even_def by simp
qed

lemma round_half_even_div_minus:
  assumes "d \<noteq> 0"
  shows "round_half_even_div (- n) d = - round_half_even_div n d"
    and "round_half_even_div n (- d) = - round_half_even_div n d"
proof -
  have h: "is_round_half_even (- (of_int n / of_int d)) (- round_half_even_div n d)"
    unfolding is_round_half_even_minus using assms by (rule round_half_even_div_half_even)
  have "real_of_int (- n) / of_int d = - (of_int n / of_int d)" by simp
  with h show "round_half_even_div (- n) d = - round_half_even_div n d"
    using assms by (intro round_half_even_div_eqI) simp_all
  have "real_of_int n / of_int (- d) = - (of_int n / of_int d)" by simp
  with h show "round_half_even_div n (- d) = - round_half_even_div n d"
    using assms by (intro round_half_even_div_eqI) simp_all
qed

lemma round_half_even_div_sgn:
  assumes "n \<noteq> 0" "d \<noteq> 0"
  shows "sgn n * sgn d * round_half_even_div \<bar>n\<bar> \<bar>d\<bar> = round_half_even_div n d"
proof -
  consider "0 < n" "0 < d" | "0 < n" "d < 0" | "n < 0" "0 < d" | "n < 0" "d < 0"
    using assms by linarith
  then show ?thesis
  proof cases
    case 1 then show ?thesis by simp
  next
    case 2
    then have "round_half_even_div n (- d) = - round_half_even_div n d"
      by (intro round_half_even_div_minus) simp
    with 2 show ?thesis by simp
  next
    case 3
    then have "round_half_even_div (- n) d = - round_half_even_div n d"
      by (intro round_half_even_div_minus) simp
    with 3 show ?thesis by simp
  next
    case 4
    then have "round_half_even_div (- n) (- d) = - round_half_even_div n (- d)"
      by (intro round_half_even_div_minus) simp
    also have "round_half_even_div n (- d) = - round_half_even_div n d"
      using 4 by (intro round_half_even_div_minus) simp
    finally show ?thesis using 4 by simp
  qed
qed

lemma round_half_even_div_tie:
  assumes "0 < d" and "2 * \<bar>round_half_even_div n d * d - n\<bar> = d"
  shows "even (round_half_even_div n d)"
proof -
  define r where "r = round_half_even_div n d"
  have h: "is_round_half_even (of_int n / of_int d) r"
    unfolding r_def using assms(1) by (intro round_half_even_div_half_even) simp
  have "real_of_int n / of_int d - of_int r = of_int (n - r * d) / of_int d"
    using assms(1) by (simp add: field_simps)
  then have "\<bar>real_of_int n / of_int d - of_int r\<bar> = of_int \<bar>n - r * d\<bar> / of_int d"
    using assms(1) by (simp add: abs_divide del: of_int_diff of_int_mult)
  also have "\<bar>n - r * d\<bar> = \<bar>r * d - n\<bar>" by simp
  also have "real_of_int \<bar>r * d - n\<bar> = of_int d / 2"
  proof -
    have "real_of_int (2 * \<bar>r * d - n\<bar>) = of_int d" using assms(2) unfolding r_def by simp
    then show ?thesis by simp
  qed
  finally have "\<bar>real_of_int n / of_int d - of_int r\<bar> = 1 / 2" using assms(1) by simp
  with h show ?thesis unfolding r_def is_round_half_even_def by blast
qed

lemma round_half_even_div_le:
  assumes "0 < d" and "n \<le> H * d"
  shows "round_half_even_div n d \<le> H"
proof -
  define r where "r = round_half_even_div n d"
  have "2 * \<bar>r * d - n\<bar> \<le> d"
    using round_half_even_div_err [of d n] assms(1) by (simp add: r_def)
  then have "2 * (r * d) \<le> 2 * n + d" by (simp add: abs_if split: if_splits)
  also have "\<dots> \<le> 2 * (H * d) + d" using assms(2) by simp
  finally have "(2 * r) * d \<le> (2 * H + 1) * d" by (simp add: algebra_simps)
  then have "2 * r \<le> 2 * H + 1" using assms(1) by simp
  then show ?thesis unfolding r_def by linarith
qed

lemma round_half_even_div_ge:
  assumes "0 < d" and "H * d \<le> n"
  shows "H \<le> round_half_even_div n d"
proof -
  define r where "r = round_half_even_div n d"
  have "2 * \<bar>r * d - n\<bar> \<le> d"
    using round_half_even_div_err [of d n] assms(1) by (simp add: r_def)
  then have "2 * n - d \<le> 2 * (r * d)" by (simp add: abs_if split: if_splits)
  moreover have "2 * (H * d) - d \<le> 2 * n - d" using assms(2) by simp
  ultimately have "(2 * H - 1) * d \<le> (2 * r) * d" by (simp add: algebra_simps)
  then have "2 * H - 1 \<le> 2 * r" using assms(1) by simp
  then show ?thesis unfolding r_def by linarith
qed

lemma round_half_even_div_twice:
  fixes n d :: int and s :: nat
  assumes d: "0 < d" and s: "0 < s"
    and c: "d < 2 ^ s \<or> 2 * \<bar>round_half_even_div (n * 2 ^ s) d\<bar> < 2 ^ s"
  shows "round_half_even_div (round_half_even_div (n * 2 ^ s) d) (2 ^ s) = round_half_even_div n d"
proof -
  define P :: int where "P = 2 ^ (s - 1)"
  define m where "m = round_half_even_div (n * (2 * P)) d"
  define r where "r = round_half_even_div n d"
  define x where "x = r * d - n"
  define y where "y = m * d - n * (2 * P)"
  define z where "z = m - r * (2 * P)"
  have P2: "(2 :: int) ^ s = 2 * P"
    using s unfolding P_def by (cases s) simp_all
  have P0: "0 < P" by (simp add: P_def)
  have c': "d < 2 * P \<or> 2 * \<bar>m\<bar> < 2 * P" using c unfolding P2 m_def .
  have e1: "2 * \<bar>x\<bar> \<le> d"
    using round_half_even_div_err [of d n] d by (simp add: r_def x_def)
  have e2: "2 * \<bar>y\<bar> \<le> d"
    using round_half_even_div_err [of d "n * (2 * P)"] d by (simp add: m_def y_def)
  define w where "w = x * (2 * P)"
  define dP where "dP = d * (2 * P)"
  define zd where "zd = z * d"
  have zd: "zd = y - w" by (simp add: zd_def w_def z_def y_def x_def algebra_simps)
  have xP: "\<bar>w\<bar> = \<bar>x\<bar> * (2 * P)" using P0 by (simp add: w_def abs_mult)
  have "2 * \<bar>x\<bar> * (2 * P) \<le> d * (2 * P)" using e1 P0 by (intro mult_right_mono) simp_all
  then have xb: "2 * \<bar>w\<bar> \<le> dP" unfolding xP dP_def by (simp add: algebra_simps)
  have "2 * \<bar>zd\<bar> \<le> 2 * \<bar>y\<bar> + 2 * \<bar>w\<bar>"
    unfolding zd using abs_triangle_ineq4 [of y w] by simp
  also have "\<dots> \<le> d + dP" using e2 xb by linarith
  finally have "(2 * \<bar>z\<bar>) * d \<le> (2 * P + 1) * d"
    using d by (simp add: zd_def dP_def abs_mult algebra_simps)
  then have "2 * \<bar>z\<bar> \<le> 2 * P + 1" using d by simp
  then have g1: "\<bar>z\<bar> \<le> P" by linarith
  have g2: "even r" if t: "\<bar>z\<bar> = P"
  proof -
    have m: "m = r * (2 * P) + z" by (simp add: z_def)
    have mP: "\<bar>m\<bar> = \<bar>2 * r + 1\<bar> * P \<or> \<bar>m\<bar> = \<bar>2 * r - 1\<bar> * P"
    proof -
      from t P0 have "z = P \<or> z = - P" by linarith
      then show ?thesis
      proof
        assume "z = P"
        then have "m = (2 * r + 1) * P" unfolding m by (simp add: algebra_simps)
        then show ?thesis using P0 by (simp add: abs_mult)
      next
        assume "z = - P"
        then have "m = (2 * r - 1) * P" unfolding m by (simp add: algebra_simps)
        then show ?thesis using P0 by (simp add: abs_mult)
      qed
    qed
    have "1 \<le> \<bar>2 * r + 1\<bar>" "1 \<le> \<bar>2 * r - 1\<bar>" by presburger+
    then have "1 * P \<le> \<bar>2 * r + 1\<bar> * P" "1 * P \<le> \<bar>2 * r - 1\<bar> * P"
      using P0 by (intro mult_right_mono; simp)+
    then have "P \<le> \<bar>m\<bar>" using mP by auto
    then have dlt: "d < 2 * P" using c' by linarith
    have "\<bar>zd\<bar> = P * d" using t d by (simp add: zd_def abs_mult)
    then have "2 * (P * d) \<le> 2 * \<bar>y\<bar> + 2 * \<bar>w\<bar>"
      unfolding zd using abs_triangle_ineq4 [of y w] by simp
    then have "2 * (P * d) \<le> 2 * \<bar>y\<bar> + 2 * (\<bar>x\<bar> * (2 * P))" unfolding xP .
    then have "(2 * P) * (d - 2 * \<bar>x\<bar>) \<le> 2 * \<bar>y\<bar>" by (simp add: algebra_simps)
    then have k: "(2 * P) * (d - 2 * \<bar>x\<bar>) \<le> d" using e2 by linarith
    have "d - 2 * \<bar>x\<bar> = 0"
    proof (rule ccontr)
      assume "d - 2 * \<bar>x\<bar> \<noteq> 0"
      with e1 have "1 \<le> d - 2 * \<bar>x\<bar>" by linarith
      then have "(2 * P) * 1 \<le> (2 * P) * (d - 2 * \<bar>x\<bar>)" using P0 by (intro mult_left_mono) simp_all
      with k dlt show False by linarith
    qed
    then have "2 * \<bar>round_half_even_div n d * d - n\<bar> = d" by (simp add: x_def r_def)
    with d show ?thesis unfolding r_def by (rule round_half_even_div_tie)
  qed
  have "real_of_int m / of_int (2 * P) - of_int r = of_int z / of_int (2 * P)"
    using P0 by (simp add: z_def field_simps)
  then have a: "\<bar>real_of_int m / of_int (2 * P) - of_int r\<bar> = of_int \<bar>z\<bar> / of_int (2 * P)"
    using P0 by (simp add: abs_divide del: of_int_mult)
  have b1: "real_of_int \<bar>z\<bar> / of_int (2 * P) \<le> 1 / 2"
  proof -
    have "real_of_int \<bar>z\<bar> \<le> of_int P" using g1 by (simp del: of_int_abs)
    then show ?thesis using P0 by (simp add: field_simps)
  qed
  have b2: "\<bar>z\<bar> = P" if "real_of_int \<bar>z\<bar> / of_int (2 * P) = 1 / 2"
  proof -
    from that P0 have "real_of_int \<bar>z\<bar> = of_int P" by (simp add: field_simps)
    then show ?thesis by (simp only: of_int_eq_iff)
  qed
  have "is_round_half_even (of_int m / of_int (2 * P)) r"
    unfolding is_round_half_even_def a using b1 b2 g2 by blast
  then have "round_half_even_div m (2 * P) = r"
    using P0 by (intro round_half_even_div_eqI) simp_all
  then show ?thesis unfolding m_def r_def P2 .
qed

lemma bit_length_less: "n < 2 ^ bit_length n"
proof (induction n rule: bit_length.induct)
  case (1 n)
  show ?case
  proof (cases "0 < n")
    case False
    then show ?thesis by (simp add: bit_length.simps)
  next
    case True
    then have "n div 2 < 2 ^ bit_length (n div 2)" using 1 by simp
    then have "n < 2 * 2 ^ bit_length (n div 2)" by linarith
    then show ?thesis using True by (subst bit_length.simps) simp
  qed
qed

lemma bit_length_le: "n < 2 ^ k \<Longrightarrow> bit_length n \<le> k"
proof (induction n arbitrary: k rule: bit_length.induct)
  case (1 n)
  show ?case
  proof (cases "0 < n")
    case False
    then show ?thesis by (simp add: bit_length.simps)
  next
    case True
    then obtain j where k: "k = Suc j" using 1(2) by (cases k) auto
    then have "n div 2 < 2 ^ j" using 1(2) by simp
    then have "bit_length (n div 2) \<le> j" using 1(1) True by simp
    then show ?thesis using True k by (subst bit_length.simps) simp
  qed
qed

lemma bit_length_pos: "0 < n \<Longrightarrow> 0 < bit_length n"
  by (subst bit_length.simps) simp

lemma floor_log2_le: "floor_log2 a b \<le> int (bit_length a) - int (bit_length b)"
  by (simp add: floor_log2_def Let_def)

lemma py_round_div_small:
  assumes d: "d \<noteq> 0" and n: "\<bar>n\<bar> < 2 ^ 52"
  shows "py_round_div n d = Inr (round_half_even_div n d)"
proof (cases "n = 0")
  case True
  then show ?thesis using d by (simp add: py_round_div_def round_half_even_div_exact)
next
  case False
  define a b where "a = \<bar>n\<bar>" and "b = \<bar>d\<bar>"
  define L where "L = floor_log2 a b"
  define e where "e = max (L - 52) (- 1074)"
  define s where "s = nat (- e)"
  define m where "m = round_half_even_div (a * 2 ^ s) b"
  have a: "0 < a" "a < 2 ^ 52" using False n by (simp_all add: a_def)
  have b: "0 < b" using d by (simp add: b_def)
  have la: "bit_length a \<le> 52" using a(2) by (rule bit_length_le)
  have lb: "0 < bit_length b" using b by (rule bit_length_pos)
  have Lc: "L \<le> int (bit_length a) - int (bit_length b)"
    unfolding L_def by (rule floor_log2_le)
  have e0: "e < 0" unfolding e_def using Lc la lb by simp
  have s0: "0 < s" unfolding s_def using e0 by simp
  have p: "py_round_div n d = Inr (sgn n * sgn d * round_half_even_div m (2 ^ s))"
    unfolding py_round_div_def m_def s_def
    using False d e0 [unfolded e_def L_def a_def b_def]
    by (simp add: Let_def a_def b_def L_def e_def)
  have bl: "b < 2 ^ bit_length b" by (rule bit_length_less)
  have c: "b < 2 ^ s \<or> 2 * \<bar>m\<bar> < 2 ^ s"
  proof (cases "b < 2 ^ s")
    case True
    then show ?thesis ..
  next
    case big: False
    have "s < bit_length b"
    proof (rule ccontr)
      assume "\<not> s < bit_length b"
      then have "(2 :: int) ^ bit_length b \<le> 2 ^ s" by (intro power_increasing) simp_all
      with bl big show False by linarith
    qed
    then have s: "s = 1074" unfolding s_def e_def using Lc la by linarith
    have b2: "2 ^ s \<le> b" using big by simp
    have "a * 2 ^ s \<le> a * b" using b2 a(1) by (intro mult_left_mono) simp_all
    then have m1: "m \<le> a" unfolding m_def using b by (intro round_half_even_div_le) simp_all
    have m0: "0 \<le> m" unfolding m_def using b a(1) by (intro round_half_even_div_ge) simp_all
    have "(2 :: int) ^ 53 \<le> 2 ^ s" unfolding s by (intro power_increasing) simp_all
    moreover have "2 * \<bar>m\<bar> < 2 ^ 53" using m0 m1 a(2) by simp
    ultimately show ?thesis by linarith
  qed
  have "round_half_even_div m (2 ^ s) = round_half_even_div a b"
    unfolding m_def using b s0 c [unfolded m_def] by (rule round_half_even_div_twice)
  then show ?thesis
    unfolding p using round_half_even_div_sgn [OF False d] by (simp add: a_def b_def)
qed

lemma convert_time_small:
  assumes "source_ppq self \<noteq> 0" and "\<bar>t * dest_ppq self\<bar> < 2 ^ 52"
  shows "convert_time self t
           = Inr (round_half_even_div (t * dest_ppq self) (source_ppq self))"
  unfolding convert_time_def using assms by (rule py_round_div_small)

lemma convert_time_dtos_small:
  assumes "dest_ppq self \<noteq> 0" and "\<bar>t * source_ppq self\<bar> < 2 ^ 52"
  shows "convert_time_dtos self t
           = Inr (round_half_even_div (t * source_ppq self) (dest_ppq self))"
  unfolding convert_time_dtos_def using assms by (rule py_round_div_small)

section \<open>The time rescaler\<close>

text \<open>
  C8, as amended. For positive \<open>source_ppq\<close> and \<open>dest_ppq\<close> and every tick \<open>t\<close> with
  \<open>\<bar>t * dest_ppq\<bar> < 2 ^ 52\<close>, \<open>convert_time\<close> returns the quotient
  \<open>t * dest_ppq / source_ppq\<close> rounded to the nearest integer, a tie at one half going to
  the even integer (and it is the only integer that is so), and \<open>convert_time_ro\<close> of \<open>t\<close>
  is \<open>convert_time\<close> of \<open>t - tick_offset\<close>.
\<close>

theorem convert_time_round_half_even:
  assumes "0 < source_ppq self" and "0 < dest_ppq self" and "\<bar>t * dest_ppq self\<bar> < 2 ^ 52"
  shows "\<exists>r. convert_time self t = Inr r
           \<and> is_round_half_even (of_int (t * dest_ppq self) / of_int (source_ppq self)) r
           \<and> (\<forall>r'. is_round_half_even (of_int (t * dest_ppq self) / of_int (source_ppq self)) r'
                 \<longrightarrow> r' = r)
           \<and> convert_time_ro self t = convert_time self (t - tick_offset self)"
proof -
  let ?x = "real_of_int (t * dest_ppq self) / of_int (source_ppq self)"
  let ?r = "round_half_even_div (t * dest_ppq self) (source_ppq self)"
  have nz: "source_ppq self \<noteq> 0" using assms(1) by simp
  have c: "convert_time self t = Inr ?r" using nz assms(3) by (rule convert_time_small)
  have h: "is_round_half_even ?x ?r" using nz by (rule round_half_even_div_half_even)
  have u: "\<forall>r'. is_round_half_even ?x r' \<longrightarrow> r' = ?r"
    using h is_round_half_even_unique by blast
  have ro: "convert_time_ro self t = convert_time self (t - tick_offset self)"
    by (simp add: convert_time_ro_def)
  from c h u ro show ?thesis by blast
qed

theorem convert_time_round_half_even_witness:
  "0 < source_ppq \<lparr>tick_offset = 2, source_ppq = 96, dest_ppq = 48, scale_value_by = 1\<rparr>
   \<and> 0 < dest_ppq \<lparr>tick_offset = 2, source_ppq = 96, dest_ppq = 48, scale_value_by = 1\<rparr>
   \<and> \<bar>3 * dest_ppq \<lparr>tick_offset = 2, source_ppq = 96, dest_ppq = 48, scale_value_by = 1\<rparr>\<bar> < 2 ^ 52
   \<and> convert_time \<lparr>tick_offset = 2, source_ppq = 96, dest_ppq = 48, scale_value_by = 1\<rparr> 3 = Inr 2
   \<and> is_round_half_even (3 / 2) 2
   \<and> convert_time_ro \<lparr>tick_offset = 2, source_ppq = 96, dest_ppq = 48, scale_value_by = 1\<rparr> 3 = Inr 0"
proof -
  let ?c = "\<lparr>tick_offset = 2, source_ppq = 96, dest_ppq = 48, scale_value_by = 1\<rparr>"
  have h1: "0 < source_ppq ?c" and h2: "0 < dest_ppq ?c" by simp_all
  have h3: "\<bar>3 * dest_ppq ?c\<bar> < 2 ^ 52" by simp
  have v: "convert_time ?c 3 = Inr 2" "convert_time ?c 1 = Inr 0"
    by code_simp+
  from convert_time_round_half_even [OF h1 h2 h3]
  obtain r where r: "convert_time ?c 3 = Inr r"
    "is_round_half_even (of_int (3 * dest_ppq ?c) / of_int (source_ppq ?c)) r"
    "convert_time_ro ?c 3 = convert_time ?c (3 - tick_offset ?c)"
    by blast
  from r(1) v(1) have r2: "r = 2" by simp
  have x: "real_of_int (3 * dest_ppq ?c) / of_int (source_ppq ?c) = 3 / 2" by simp
  have a: "is_round_half_even (3 / 2) 2" using r(2) unfolding r2 x .
  have b: "convert_time_ro ?c 3 = Inr 0" using r(3) v(2) by simp
  show ?thesis using h1 h2 h3 v(1) a b by blast
qed

text \<open>
  With 3 source ticks and 1 destination tick per quarter note, tick 6755399441055748 has
  the quotient \<open>2 ^ 51 + 1 + 1 / 3\<close>. The double nearest to it is \<open>2 ^ 51 + 1 + 1 / 2\<close>, and
  \<open>convert_time\<close> returns the even neighbour 2251799813685250 of that double, which is
  not the integer nearest to the quotient: that is 2251799813685249.
\<close>

theorem convert_time_round_half_even_counterexample:
  "convert_time \<lparr>tick_offset = 0, source_ppq = 3, dest_ppq = 1, scale_value_by = 1\<rparr>
       6755399441055748 = Inr 2251799813685250
   \<and> \<not> is_round_half_even (of_int (6755399441055748 * 1) / of_int 3) 2251799813685250
   \<and> is_round_half_even (of_int (6755399441055748 * 1) / of_int 3) 2251799813685249"
proof -
  have a: "convert_time \<lparr>tick_offset = 0, source_ppq = 3, dest_ppq = 1, scale_value_by = 1\<rparr>
       6755399441055748 = Inr 2251799813685250"
    by code_simp
  have b: "is_round_half_even (of_int (6755399441055748 * 1) / of_int 3) 2251799813685249"
    by (simp add: is_round_half_even_def)
  have c: "\<not> is_round_half_even (of_int (6755399441055748 * 1) / of_int 3) 2251799813685250"
    by (simp add: is_round_half_even_def)
  from a b c show ?thesis by blast
qed

text \<open>
  C1, as amended. For positive \<open>source_ppq\<close> and \<open>dest_ppq\<close> and every tick \<open>t\<close> with
  \<open>\<bar>t * dest_ppq\<bar> + source_ppq < 2 ^ 52\<close>, the conversion to destination ticks and back
  returns a tick \<open>r\<close> with \<open>2 * dest_ppq * \<bar>r - t\<bar> \<le> source_ppq + dest_ppq\<close>; it is within
  one tick of \<open>t\<close> when \<open>source_ppq < 3 * dest_ppq\<close>, and it is \<open>t\<close> itself when
  \<open>source_ppq\<close> divides \<open>t * dest_ppq\<close>.
\<close>

theorem convert_time_dtos_roundtrip:
  assumes "0 < source_ppq self" and "0 < dest_ppq self"
    and "\<bar>t * dest_ppq self\<bar> + source_ppq self < 2 ^ 52"
  shows "\<exists>u r. convert_time self t = Inr u \<and> convert_time_dtos self u = Inr r
           \<and> 2 * dest_ppq self * \<bar>r - t\<bar> \<le> source_ppq self + dest_ppq self
           \<and> (source_ppq self < 3 * dest_ppq self \<longrightarrow> \<bar>r - t\<bar> \<le> 1)
           \<and> (source_ppq self dvd t * dest_ppq self \<longrightarrow> r = t)"
proof -
  define s d where "s = source_ppq self" and "d = dest_ppq self"
  define u where "u = round_half_even_div (t * d) s"
  define r where "r = round_half_even_div (u * s) d"
  define td where "td = t * d"
  define us where "us = u * s"
  have pos: "0 < s" "0 < d" using assms by (simp_all add: s_def d_def)
  have bd: "\<bar>td\<bar> + s < 2 ^ 52" using assms(3) by (simp add: td_def s_def d_def)
  have e1: "2 * \<bar>us - td\<bar> \<le> s"
    using round_half_even_div_err [of s "t * d"] pos by (simp add: u_def us_def td_def)
  have e2: "2 * \<bar>r * d - us\<bar> \<le> d"
    using round_half_even_div_err [of d "u * s"] pos by (simp add: r_def us_def)
  have "\<bar>td\<bar> < 2 ^ 52" using bd pos by linarith
  then have cu: "convert_time self t = Inr u"
    using pos convert_time_small [of self t] by (simp add: u_def s_def d_def td_def)
  have "\<bar>us\<bar> \<le> \<bar>td\<bar> + s" using e1 pos by (simp add: abs_if split: if_splits)
  then have "\<bar>us\<bar> < 2 ^ 52" using bd by simp
  then have cr: "convert_time_dtos self u = Inr r"
    using pos convert_time_dtos_small [of self u] by (simp add: r_def s_def d_def us_def)
  have "2 * \<bar>r * d - td\<bar> \<le> s + d" using e1 e2 by (simp add: abs_if split: if_splits)
  moreover have "\<bar>r * d - td\<bar> = d * \<bar>r - t\<bar>"
    using pos by (simp add: td_def abs_mult left_diff_distrib [symmetric])
  ultimately have b: "2 * d * \<bar>r - t\<bar> \<le> s + d" by simp
  have near: "\<bar>r - t\<bar> \<le> 1" if "s < 3 * d"
  proof (rule ccontr)
    assume "\<not> \<bar>r - t\<bar> \<le> 1"
    then have "2 \<le> \<bar>r - t\<bar>" by simp
    then have "2 * d * 2 \<le> 2 * d * \<bar>r - t\<bar>" using pos by (intro mult_left_mono) simp_all
    with b that show False by simp
  qed
  have exact: "r = t" if "s dvd t * d"
  proof -
    have "u = t * d div s" using that by (simp add: u_def round_half_even_div_exact)
    then have "u * s = t * d" using that by simp
    then have "r = round_half_even_div (t * d) d" by (simp add: r_def)
    also have "\<dots> = t * d div d" by (simp add: round_half_even_div_exact)
    finally show ?thesis using pos by simp
  qed
  show ?thesis
    using cu cr b near exact unfolding s_def d_def by blast
qed

theorem convert_time_dtos_roundtrip_witness:
  "0 < source_ppq \<lparr>tick_offset = 0, source_ppq = 96, dest_ppq = 48, scale_value_by = 1\<rparr>
   \<and> 0 < dest_ppq \<lparr>tick_offset = 0, source_ppq = 96, dest_ppq = 48, scale_value_by = 1\<rparr>
   \<and> \<bar>3 * dest_ppq \<lparr>tick_offset = 0, source_ppq = 96, dest_ppq = 48, scale_value_by = 1\<rparr>\<bar>
       + source_ppq \<lparr>tick_offset = 0, source_ppq = 96, dest_ppq = 48, scale_value_by = 1\<rparr> < 2 ^ 52
   \<and> \<bar>100 * dest_ppq \<lparr>tick_offset = 0, source_ppq = 96, dest_ppq = 48, scale_value_by = 1\<rparr>\<bar>
       + source_ppq \<lparr>tick_offset = 0, source_ppq = 96, dest_ppq = 48, scale_value_by = 1\<rparr> < 2 ^ 52
   \<and> source_ppq \<lparr>tick_offset = 0, source_ppq = 96, dest_ppq = 48, scale_value_by = 1\<rparr>
       < 3 * dest_ppq \<lparr>tick_offset = 0, source_ppq = 96, dest_ppq = 48, scale_value_by = 1\<rparr>
   \<and> (\<exists>u r. convert_time \<lparr>tick_offset = 0, source_ppq = 96, dest_ppq = 48, scale_value_by = 1\<rparr> 3 = Inr u
          \<and> convert_time_dtos \<lparr>tick_offset = 0, source_ppq = 96, dest_ppq = 48, scale_value_by = 1\<rparr> u = Inr r
          \<and> \<bar>r - 3\<bar> \<le> 1)
   \<and> (96 :: int) dvd 100 * 48
   \<and> (\<exists>u. convert_time \<lparr>tick_offset = 0, source_ppq = 96, dest_ppq = 48, scale_value_by = 1\<rparr> 100 = Inr u
          \<and> convert_time_dtos \<lparr>tick_offset = 0, source_ppq = 96, dest_ppq = 48, scale_value_by = 1\<rparr> u = Inr 100)"
proof -
  let ?c = "\<lparr>tick_offset = 0, source_ppq = 96, dest_ppq = 48, scale_value_by = 1\<rparr>"
  have h1: "0 < source_ppq ?c" and h2: "0 < dest_ppq ?c" by simp_all
  have b3: "\<bar>3 * dest_ppq ?c\<bar> + source_ppq ?c < 2 ^ 52" by simp
  have b100: "\<bar>100 * dest_ppq ?c\<bar> + source_ppq ?c < 2 ^ 52" by simp
  have h3: "source_ppq ?c < 3 * dest_ppq ?c" by simp
  have h4: "source_ppq ?c dvd 100 * dest_ppq ?c" by simp
  from convert_time_dtos_roundtrip [OF h1 h2 b3] h3
  have a: "\<exists>u r. convert_time ?c 3 = Inr u \<and> convert_time_dtos ?c u = Inr r \<and> \<bar>r - 3\<bar> \<le> 1"
    by blast
  from convert_time_dtos_roundtrip [OF h1 h2 b100] h4
  have b: "\<exists>u. convert_time ?c 100 = Inr u \<and> convert_time_dtos ?c u = Inr 100"
    by blast
  have c: "(96 :: int) dvd 100 * 48" by simp
  show ?thesis using h1 h2 b3 b100 h3 a b c by blast
qed

text \<open>
  With 480 source ticks and 48 destination ticks per quarter note, tick 4 goes to
  destination tick 0 and comes back as tick 0, four ticks away.
\<close>

theorem convert_time_dtos_roundtrip_counterexample:
  "convert_time \<lparr>tick_offset = 0, source_ppq = 480, dest_ppq = 48, scale_value_by = 1\<rparr> 4 = Inr 0
   \<and> convert_time_dtos \<lparr>tick_offset = 0, source_ppq = 480, dest_ppq = 48, scale_value_by = 1\<rparr> 0 = Inr 0
   \<and> \<not> \<bar>(0 :: int) - 4\<bar> \<le> 1"
proof -
  have a: "convert_time \<lparr>tick_offset = 0, source_ppq = 480, dest_ppq = 48, scale_value_by = 1\<rparr> 4 = Inr 0"
    by code_simp
  have b: "convert_time_dtos \<lparr>tick_offset = 0, source_ppq = 480, dest_ppq = 48, scale_value_by = 1\<rparr> 0 = Inr 0"
    by code_simp
  from a b show ?thesis by simp
qed

section \<open>The hexadecimal note record\<close>

lemma hex_digit_alphabet: "n < 16 \<Longrightarrow> hex_digit n \<in> set ''0123456789ABCDEF''"
  unfolding hex_digit_def by (rule nth_mem) simp

lemma hex_of_nat_alphabet: "set (hex_of_nat n) \<subseteq> set ''0123456789ABCDEF''"
proof (induction n rule: hex_of_nat.induct)
  case (1 n)
  show ?case
  proof (cases "n < 16")
    case True
    then show ?thesis using hex_digit_alphabet [of n] by (subst hex_of_nat.simps) simp
  next
    case False
    have "n mod 16 < 16" by simp
    then have "hex_digit (n mod 16) \<in> set ''0123456789ABCDEF''" by (rule hex_digit_alphabet)
    moreover have "set (hex_of_nat (n div 16)) \<subseteq> set ''0123456789ABCDEF''"
      using 1 False by simp
    ultimately show ?thesis using False by (subst hex_of_nat.simps) simp
  qed
qed

lemma hex_of_nat_length: "0 < k \<Longrightarrow> n < 16 ^ k \<Longrightarrow> length (hex_of_nat n) \<le> k"
proof (induction n arbitrary: k rule: hex_of_nat.induct)
  case (1 n)
  show ?case
  proof (cases "n < 16")
    case True
    then show ?thesis using "1.prems" by (subst hex_of_nat.simps) simp
  next
    case False
    then obtain j where k: "k = Suc j" using "1.prems" by (cases k) auto
    have j: "0 < j" using False "1.prems" k by (cases j) auto
    have "n div 16 < 16 ^ j" using "1.prems"(2) k by (simp add: less_mult_imp_div_less mult.commute)
    then have "length (hex_of_nat (n div 16)) \<le> j" using "1.IH" [OF False j] by simp
    then show ?thesis using False k by (subst hex_of_nat.simps) simp
  qed
qed

lemma hex_of_nat_nonempty: "hex_of_nat n \<noteq> []"
  by (subst hex_of_nat.simps) simp

lemma length_zfill: "length (zfill w s) = max w (length s)"
  by (simp add: zfill_def)

lemma set_zfill: "set (zfill w s) \<subseteq> insert (CHR ''0'') (set s)"
  by (auto simp: zfill_def)

lemma mask32: "(v :: int) AND 0xFFFFFFFF = v mod 2 ^ 32"
proof -
  have "(0xFFFFFFFF :: int) = mask 32" by (simp add: mask_eq_exp_minus_1)
  then show ?thesis by (simp only: take_bit_eq_mask [symmetric] take_bit_eq_mod)
qed

lemma hex_lz32_eq: "hex_lz32 v = zfill 8 (hex_of_nat (nat (v mod 2 ^ 32)))"
proof -
  have "\<not> v mod 2 ^ 32 < 0" by (simp add: not_less)
  then show ?thesis unfolding hex_lz32_def mask32 format_0X_def by (simp only: if_False)
qed

lemma length_hex_lz32: "length (hex_lz32 v) = 8"
proof -
  have "nat (v mod 2 ^ 32) < 16 ^ 8" by (simp add: nat_less_iff)
  then have "length (hex_of_nat (nat (v mod 2 ^ 32))) \<le> 8"
    by (intro hex_of_nat_length) simp_all
  then show ?thesis by (simp add: hex_lz32_eq length_zfill)
qed

lemma set_hex_lz32: "set (hex_lz32 v) \<subseteq> set ''0123456789ABCDEF''"
proof -
  have "set (hex_lz32 v) \<subseteq> insert (CHR ''0'') (set (hex_of_nat (nat (v mod 2 ^ 32))))"
    unfolding hex_lz32_eq by (rule set_zfill)
  also have "\<dots> \<subseteq> set ''0123456789ABCDEF''"
    using hex_of_nat_alphabet [of "nat (v mod 2 ^ 32)"] by auto
  finally show ?thesis .
qed

lemma format_0X_2_byte:
  assumes "0 \<le> v" and "v < 256"
  shows "length (format_0X 2 v) = 2" and "set (format_0X 2 v) \<subseteq> set ''0123456789ABCDEF''"
    and "format_0X 2 v = zfill 2 (hex_of_nat (nat v))"
proof -
  show e: "format_0X 2 v = zfill 2 (hex_of_nat (nat v))" using assms by (simp add: format_0X_def)
  have "nat v < 16 ^ 2" using assms by simp
  then have "length (hex_of_nat (nat v)) \<le> 2" by (intro hex_of_nat_length) simp_all
  then show "length (format_0X 2 v) = 2" by (simp add: e length_zfill)
  have "set (format_0X 2 v) \<subseteq> insert (CHR ''0'') (set (hex_of_nat (nat v)))"
    unfolding e by (rule set_zfill)
  also have "\<dots> \<subseteq> set ''0123456789ABCDEF''"
    using hex_of_nat_alphabet [of "nat v"] by auto
  finally show "set (format_0X 2 v) \<subseteq> set ''0123456789ABCDEF''" .
qed

lemma upper_char_hex: "c \<in> set ''0123456789ABCDEF-'' \<Longrightarrow> upper_char c = c"
  by (auto simp: upper_char_def)

lemma upper_id: "set s \<subseteq> set ''0123456789ABCDEF-'' \<Longrightarrow> upper s = s"
  unfolding upper_def by (rule map_idI) (use upper_char_hex in blast)

lemma set_zfill_hex: "set (zfill k (hex_of_nat m)) \<subseteq> set ''0123456789ABCDEF-''"
proof -
  have "set (zfill k (hex_of_nat m)) \<subseteq> insert (CHR ''0'') (set (hex_of_nat m))"
    by (rule set_zfill)
  also have "\<dots> \<subseteq> insert (CHR ''0'') (set ''0123456789ABCDEF'')"
    by (rule insert_mono) (rule hex_of_nat_alphabet)
  also have "\<dots> \<subseteq> set ''0123456789ABCDEF-''"
    by simp
  finally show ?thesis .
qed

lemma set_format_0X: "set (format_0X w v) \<subseteq> set ''0123456789ABCDEF-''"
proof (cases "v < 0")
  case True
  then have "format_0X w v = CHR ''-'' # zfill (w - 1) (hex_of_nat (nat (- v)))"
    by (simp add: format_0X_def)
  moreover have "CHR ''-'' \<in> set ''0123456789ABCDEF-''" by simp
  ultimately show ?thesis using set_zfill_hex [of "w - 1" "nat (- v)"] by simp
next
  case False
  then have "format_0X w v = zfill w (hex_of_nat (nat v))" by (simp add: format_0X_def)
  then show ?thesis using set_zfill_hex [of w "nat v"] by simp
qed

lemma upper_append: "upper (a @ b) = upper a @ upper b"
  by (simp add: upper_def)

lemma upper_hex_lz32: "upper (hex_lz32 v) = hex_lz32 v"
proof (rule upper_id)
  have "set (hex_lz32 v) \<subseteq> set ''0123456789ABCDEF''" by (rule set_hex_lz32)
  also have "\<dots> \<subseteq> set ''0123456789ABCDEF-''" by simp
  finally show "set (hex_lz32 v) \<subseteq> set ''0123456789ABCDEF-''" .
qed

lemma upper_format_0X: "upper (format_0X w v) = format_0X w v"
  by (rule upper_id) (rule set_format_0X)

lemma upper_lift_cc: "upper ''40'' = ''40''" "upper ''14'' = ''14''"
  by (simp_all add: upper_def upper_char_def)

lemma note_hex_eq:
  "note_hex midi context note =
     hex_lz32 (t_dstart midi context note) @ hex_lz32 (t_ddur midi context note)
     @ format_0X 2 (min (velocity note) 127) @ ''40'' @ ''14''"
  unfolding note_hex_def
  by (simp only: upper_append upper_hex_lz32 upper_format_0X upper_lift_cc)

lemma note_converts_Inr:
  assumes "note_converts midi context note"
  shows "convert_time context (time_to_tick midi (start note)) = Inr (t_dstart midi context note)"
    and "convert_time context (time_to_tick midi (end_time note) - time_to_tick midi (start note))
           = Inr (t_ddur midi context note)"
  using assms unfolding note_converts_def t_dstart_def t_ddur_def by simp_all

lemma note_converts_small:
  assumes "source_ppq context \<noteq> 0"
    and "\<bar>time_to_tick midi (start note) * dest_ppq context\<bar> < 2 ^ 52"
    and "\<bar>(time_to_tick midi (end_time note) - time_to_tick midi (start note)) * dest_ppq context\<bar>
           < 2 ^ 52"
  shows "note_converts midi context note"
  unfolding note_converts_def
  using convert_time_small [OF assms(1,2)] convert_time_small [OF assms(1,3)] by simp

lemma encode_note_Inr:
  assumes "note_converts midi context note"
  shows "encode_note midi context track_num f note =
     Inr (f\<lparr>clip_max := max (clip_max f) (t_dstart midi context note + t_ddur midi context note),
            laneh := laneh f @ note_hex midi context note,
            last_start := time_to_tick midi (start note),
            last_end := time_to_tick midi (end_time note),
            logs := logs f @ note_warnings midi track_num (last_start f) (last_end f) note\<rparr>)"
  unfolding encode_note_def Let_def note_converts_Inr [OF assms] note_hex_def note_warnings_def
  by (simp add: max_def)

lemma encode_note_Inl:
  assumes "\<not> note_converts midi context note"
  shows "isl (encode_note midi context track_num f note)"
  using assms unfolding encode_note_def Let_def note_converts_def
  by (auto split: sum.splits)

lemma encode_note_Inr_D:
  "encode_note midi context track_num f note = Inr f' \<Longrightarrow> note_converts midi context note"
  using encode_note_Inl [of midi "context" "note" track_num f] by auto

lemma note_hex_parts:
  assumes "0 \<le> velocity note"
  shows "length (note_hex midi context note) = 22"
    and "set (note_hex midi context note) \<subseteq> set ''0123456789ABCDEF''"
    and "take 2 (drop 16 (note_hex midi context note)) = format_0X 2 (min (velocity note) 127)"
    and "format_0X 2 (min (velocity note) 127)
           = zfill 2 (hex_of_nat (nat (max 0 (min (velocity note) 127))))"
    and "length (format_0X 2 (min (velocity note) 127)) = 2"
proof -
  let ?v = "min (velocity note) 127"
  let ?a = "hex_lz32 (t_dstart midi context note)"
  let ?b = "hex_lz32 (t_ddur midi context note)"
  have v: "0 \<le> ?v" "?v < 256" using assms by simp_all
  have lv: "length (format_0X 2 ?v) = 2" and sv: "set (format_0X 2 ?v) \<subseteq> set ''0123456789ABCDEF''"
    and ev: "format_0X 2 ?v = zfill 2 (hex_of_nat (nat ?v))"
    using format_0X_2_byte [OF v] by blast+
  show "length (format_0X 2 ?v) = 2" by (rule lv)
  have "max 0 ?v = ?v" using v(1) by simp
  then show "format_0X 2 ?v = zfill 2 (hex_of_nat (nat (max 0 ?v)))" using ev by simp
  show "length (note_hex midi context note) = 22"
    by (simp add: note_hex_eq length_hex_lz32 lv)
  have "set (''40'' @ ''14'') \<subseteq> set ''0123456789ABCDEF''" by simp
  then show "set (note_hex midi context note) \<subseteq> set ''0123456789ABCDEF''"
    using set_hex_lz32 [of "t_dstart midi context note"] set_hex_lz32 [of "t_ddur midi context note"] sv
    unfolding note_hex_eq set_append by blast
  have "drop 16 (note_hex midi context note) = format_0X 2 ?v @ ''40'' @ ''14''"
    unfolding note_hex_eq by (simp add: length_hex_lz32)
  then show "take 2 (drop 16 (note_hex midi context note)) = format_0X 2 ?v"
    using lv by simp
qed

text \<open>
  C2, as amended. For every note whose velocity is not negative, the record that the loop
  body appends has 22 characters, and its velocity field (the two characters after the
  first 16) is the two-digit hexadecimal form of the velocity clamped into [0, 127]: a
  velocity above 127 becomes 127. (A negative velocity is not raised to 0.) The loop body
  does append a record when \<open>source_ppq\<close> is not zero and the start tick and the duration,
  multiplied by \<open>dest_ppq\<close>, stay below \<open>2 ^ 52\<close>.
\<close>

theorem encode_note_velocity_byte:
  assumes "0 \<le> velocity note"
  shows "(source_ppq context \<noteq> 0
          \<and> \<bar>time_to_tick midi (start note) * dest_ppq context\<bar> < 2 ^ 52
          \<and> \<bar>(time_to_tick midi (end_time note) - time_to_tick midi (start note))
                * dest_ppq context\<bar> < 2 ^ 52
          \<longrightarrow> (\<exists>f'. encode_note midi context track_num f note = Inr f'))
       \<and> (\<forall>f'. encode_note midi context track_num f note = Inr f' \<longrightarrow>
             (\<exists>h. laneh f' = laneh f @ h \<and> length h = 22
                \<and> take 2 (drop 16 h)
                    = zfill 2 (hex_of_nat (nat (max 0 (min (velocity note) 127))))))"
proof (intro conjI impI allI)
  assume "source_ppq context \<noteq> 0
          \<and> \<bar>time_to_tick midi (start note) * dest_ppq context\<bar> < 2 ^ 52
          \<and> \<bar>(time_to_tick midi (end_time note) - time_to_tick midi (start note))
                * dest_ppq context\<bar> < 2 ^ 52"
  then have "note_converts midi context note" by (intro note_converts_small) simp_all
  then show "\<exists>f'. encode_note midi context track_num f note = Inr f'"
    using encode_note_Inr by blast
next
  fix f'
  assume r: "encode_note midi context track_num f note = Inr f'"
  then have nc: "note_converts midi context note" by (rule encode_note_Inr_D)
  let ?h = "note_hex midi context note"
  have 1: "laneh f' = laneh f @ ?h" using r unfolding encode_note_Inr [OF nc] by auto
  have 2: "take 2 (drop 16 ?h) = zfill 2 (hex_of_nat (nat (max 0 (min (velocity note) 127))))"
    using note_hex_parts(3,4) [OF assms] by simp
  have 3: "length ?h = 22" using note_hex_parts(1) [OF assms] .
  from 1 2 3 show "\<exists>h. laneh f' = laneh f @ h \<and> length h = 22
                \<and> take 2 (drop 16 h)
                    = zfill 2 (hex_of_nat (nat (max 0 (min (velocity note) 127))))"
    by blast
qed

theorem encode_note_velocity_byte_witness:
  "0 \<le> velocity \<lparr>velocity = 200, pitch = 60, start = 0, end_time = 96\<rparr>
   \<and> (\<exists>f' h. encode_note \<lparr>resolution = 96, instruments = [], time_to_tick = floor\<rparr>
                 \<lparr>tick_offset = 0, source_ppq = 96, dest_ppq = 48, scale_value_by = 1\<rparr> 1
                 \<lparr>clip_max = 0, rows = [], laneh = ''0x'', last_start = - 1, last_end = - 1, logs = []\<rparr>
                 \<lparr>velocity = 200, pitch = 60, start = 0, end_time = 96\<rparr> = Inr f'
          \<and> laneh f' = ''0x'' @ h \<and> length h = 22 \<and> take 2 (drop 16 h) = ''7F'')"
proof -
  let ?m = "\<lparr>resolution = 96, instruments = [], time_to_tick = floor\<rparr>"
  let ?c = "\<lparr>tick_offset = 0, source_ppq = 96, dest_ppq = 48, scale_value_by = 1\<rparr>"
  let ?n = "\<lparr>velocity = 200, pitch = 60, start = 0, end_time = 96\<rparr>"
  let ?f = "\<lparr>clip_max = 0, rows = [], laneh = ''0x'', last_start = - 1, last_end = - 1, logs = []\<rparr>"
  have h2: "0 \<le> velocity ?n" by simp
  have b: "source_ppq ?c \<noteq> 0
          \<and> \<bar>time_to_tick ?m (start ?n) * dest_ppq ?c\<bar> < 2 ^ 52
          \<and> \<bar>(time_to_tick ?m (end_time ?n) - time_to_tick ?m (start ?n)) * dest_ppq ?c\<bar> < 2 ^ 52"
    by simp
  have z: "zfill 2 (hex_of_nat (nat (max 0 (min (velocity ?n) 127)))) = ''7F''"
    by (simp add: zfill_def hex_of_nat.simps hex_digit_def)
  note t = encode_note_velocity_byte [OF h2, of "?c" "?m" 1 "?f"]
  from t b obtain f' where f': "encode_note ?m ?c 1 ?f ?n = Inr f'" by blast
  with t obtain h where "laneh f' = laneh ?f @ h" "length h = 22"
    "take 2 (drop 16 h) = zfill 2 (hex_of_nat (nat (max 0 (min (velocity ?n) 127))))"
    by blast
  then have "laneh f' = ''0x'' @ h \<and> length h = 22 \<and> take 2 (drop 16 h) = ''7F''"
    unfolding z by simp
  with f' h2 show ?thesis by blast
qed

text \<open>
  A note of velocity -1: the record carries the field \<open>-1\<close>, where the clamped velocity 0
  would be written \<open>00\<close>.
\<close>

theorem encode_note_velocity_byte_counterexample:
  "map_sum id laneh
     (encode_note \<lparr>resolution = 96, instruments = [], time_to_tick = floor\<rparr>
        \<lparr>tick_offset = 0, source_ppq = 96, dest_ppq = 48, scale_value_by = 1\<rparr> 1
        \<lparr>clip_max = 0, rows = [], laneh = ''0x'', last_start = - 1, last_end = - 1, logs = []\<rparr>
        \<lparr>velocity = - 1, pitch = 60, start = 0, end_time = 96\<rparr>)
     = Inr (''0x'' @ ''00000000'' @ ''00000030'' @ ''-1'' @ ''40'' @ ''14'')
   \<and> zfill 2 (hex_of_nat (nat (max 0 (min (- 1) 127)))) = ''00''
   \<and> ''-1'' \<noteq> ''00''"
proof -
  let ?m = "\<lparr>resolution = 96, instruments = [], time_to_tick = floor\<rparr>"
  let ?c = "\<lparr>tick_offset = 0, source_ppq = 96, dest_ppq = 48, scale_value_by = 1\<rparr>"
  let ?n = "\<lparr>velocity = - 1, pitch = 60, start = 0, end_time = 96\<rparr>"
  have ct: "convert_time ?c 0 = Inr 0" "convert_time ?c 96 = Inr 48" by code_simp+
  have c: "note_converts ?m ?c ?n" by (simp add: note_converts_def ct)
  have ds: "t_dstart ?m ?c ?n = 0" by (simp add: t_dstart_def ct)
  have dd: "t_ddur ?m ?c ?n = 48" by (simp add: t_ddur_def ct)
  have v: "min (velocity ?n) 127 = - 1" by simp
  have h0: "hex_lz32 0 = ''00000000''" by code_simp
  have h1: "hex_lz32 48 = ''00000030''" by code_simp
  have h2: "format_0X 2 (- 1) = ''-1''" by code_simp
  have nh: "note_hex ?m ?c ?n = ''00000000'' @ ''00000030'' @ ''-1'' @ ''40'' @ ''14''"
    unfolding note_hex_eq ds dd v h0 h1 h2 ..
  have z: "zfill 2 (hex_of_nat (nat (max 0 (min (- 1) 127)))) = ''00''" by code_simp
  show ?thesis unfolding encode_note_Inr [OF c] nh z by simp
qed

text \<open>
  C3, as amended. For every note whose velocity is not negative, the record the loop body
  appends to the lane is a string of exactly 22 characters of the alphabet [0-9A-F]: the
  8 hexadecimal digits of the rescaled start (modulo \<open>2 ^ 32\<close>), the 8 of the rescaled
  duration, the 2 of the velocity capped at 127, then \<open>40\<close> and \<open>14\<close>. The loop body does
  append a record when \<open>source_ppq\<close> is not zero and the start tick and the duration,
  multiplied by \<open>dest_ppq\<close>, stay below \<open>2 ^ 52\<close>.
\<close>

theorem encode_note_record:
  assumes "0 \<le> velocity note"
  shows "(source_ppq context \<noteq> 0
          \<and> \<bar>time_to_tick midi (start note) * dest_ppq context\<bar> < 2 ^ 52
          \<and> \<bar>(time_to_tick midi (end_time note) - time_to_tick midi (start note))
                * dest_ppq context\<bar> < 2 ^ 52
          \<longrightarrow> (\<exists>f'. encode_note midi context track_num f note = Inr f'))
       \<and> (\<forall>f'. encode_note midi context track_num f note = Inr f' \<longrightarrow>
             (\<exists>h t_dstart t_ddur.
                convert_time context (time_to_tick midi (start note)) = Inr t_dstart
                \<and> convert_time context
                     (time_to_tick midi (end_time note) - time_to_tick midi (start note))
                    = Inr t_ddur
                \<and> laneh f' = laneh f @ h
                \<and> length h = 22
                \<and> set h \<subseteq> set ''0123456789ABCDEF''
                \<and> h = hex_lz32 t_dstart @ hex_lz32 t_ddur @ format_0X 2 (min (velocity note) 127)
                      @ ''40'' @ ''14''
                \<and> hex_lz32 t_dstart = zfill 8 (hex_of_nat (nat (t_dstart mod 2 ^ 32)))
                \<and> hex_lz32 t_ddur = zfill 8 (hex_of_nat (nat (t_ddur mod 2 ^ 32)))
                \<and> length (hex_lz32 t_dstart) = 8
                \<and> length (hex_lz32 t_ddur) = 8
                \<and> length (format_0X 2 (min (velocity note) 127)) = 2))"
proof (intro conjI impI allI)
  assume "source_ppq context \<noteq> 0
          \<and> \<bar>time_to_tick midi (start note) * dest_ppq context\<bar> < 2 ^ 52
          \<and> \<bar>(time_to_tick midi (end_time note) - time_to_tick midi (start note))
                * dest_ppq context\<bar> < 2 ^ 52"
  then have "note_converts midi context note" by (intro note_converts_small) simp_all
  then show "\<exists>f'. encode_note midi context track_num f note = Inr f'"
    using encode_note_Inr by blast
next
  fix f'
  assume r: "encode_note midi context track_num f note = Inr f'"
  then have nc: "note_converts midi context note" by (rule encode_note_Inr_D)
  let ?h = "note_hex midi context note"
  let ?s = "Spec2Isabelle.t_dstart midi context note"
  let ?d = "Spec2Isabelle.t_ddur midi context note"
  have a: "convert_time context (time_to_tick midi (start note)) = Inr ?s"
    by (rule note_converts_Inr(1) [OF nc])
  have b: "convert_time context (time_to_tick midi (end_time note) - time_to_tick midi (start note))
             = Inr ?d"
    by (rule note_converts_Inr(2) [OF nc])
  have c: "laneh f' = laneh f @ ?h" using r unfolding encode_note_Inr [OF nc] by auto
  show "\<exists>h t_dstart t_ddur.
                convert_time context (time_to_tick midi (start note)) = Inr t_dstart
                \<and> convert_time context
                     (time_to_tick midi (end_time note) - time_to_tick midi (start note))
                    = Inr t_ddur
                \<and> laneh f' = laneh f @ h
                \<and> length h = 22
                \<and> set h \<subseteq> set ''0123456789ABCDEF''
                \<and> h = hex_lz32 t_dstart @ hex_lz32 t_ddur @ format_0X 2 (min (velocity note) 127)
                      @ ''40'' @ ''14''
                \<and> hex_lz32 t_dstart = zfill 8 (hex_of_nat (nat (t_dstart mod 2 ^ 32)))
                \<and> hex_lz32 t_ddur = zfill 8 (hex_of_nat (nat (t_ddur mod 2 ^ 32)))
                \<and> length (hex_lz32 t_dstart) = 8
                \<and> length (hex_lz32 t_ddur) = 8
                \<and> length (format_0X 2 (min (velocity note) 127)) = 2"
    using a b c note_hex_parts(1,2) [OF assms, of midi "context"] note_hex_parts(5) [OF assms]
      note_hex_eq [of midi "context" "note"] hex_lz32_eq [of "?s"] hex_lz32_eq [of "?d"]
      length_hex_lz32 [of "?s"] length_hex_lz32 [of "?d"]
    by blast
qed

theorem encode_note_record_witness:
  "0 \<le> velocity \<lparr>velocity = 100, pitch = 60, start = 0, end_time = 220\<rparr>
   \<and> (\<exists>f'. encode_note \<lparr>resolution = 220, instruments = [], time_to_tick = floor\<rparr>
                 \<lparr>tick_offset = 0, source_ppq = 220, dest_ppq = 48, scale_value_by = 1\<rparr> 1
                 \<lparr>clip_max = 0, rows = [], laneh = ''0x'', last_start = - 1, last_end = - 1, logs = []\<rparr>
                 \<lparr>velocity = 100, pitch = 60, start = 0, end_time = 220\<rparr> = Inr f'
          \<and> laneh f' = ''0x'' @ ''00000000'' @ ''00000030'' @ ''64'' @ ''40'' @ ''14'')"
proof -
  let ?m = "\<lparr>resolution = 220, instruments = [], time_to_tick = floor\<rparr>"
  let ?c = "\<lparr>tick_offset = 0, source_ppq = 220, dest_ppq = 48, scale_value_by = 1\<rparr>"
  let ?n = "\<lparr>velocity = 100, pitch = 60, start = 0, end_time = 220\<rparr>"
  let ?f = "\<lparr>clip_max = 0, rows = [], laneh = ''0x'', last_start = - 1, last_end = - 1, logs = []\<rparr>"
  have h2: "0 \<le> velocity ?n" by simp
  have bd: "source_ppq ?c \<noteq> 0
          \<and> \<bar>time_to_tick ?m (start ?n) * dest_ppq ?c\<bar> < 2 ^ 52
          \<and> \<bar>(time_to_tick ?m (end_time ?n) - time_to_tick ?m (start ?n)) * dest_ppq ?c\<bar> < 2 ^ 52"
    by simp
  have ct: "convert_time ?c 0 = Inr 0" "convert_time ?c 220 = Inr 48" by code_simp+
  note t = encode_note_record [OF h2, of "?c" "?m" 1 "?f"]
  from t bd obtain f' where f': "encode_note ?m ?c 1 ?f ?n = Inr f'" by blast
  with t obtain h s d where r: "convert_time ?c (time_to_tick ?m (start ?n)) = Inr s"
      "convert_time ?c (time_to_tick ?m (end_time ?n) - time_to_tick ?m (start ?n)) = Inr d"
      "laneh f' = laneh ?f @ h"
      "h = hex_lz32 s @ hex_lz32 d @ format_0X 2 (min (velocity ?n) 127) @ ''40'' @ ''14''"
    by blast
  have s: "s = 0" using r(1) by (simp add: ct)
  have d: "d = 48" using r(2) by (simp add: ct)
  have v: "min (velocity ?n) 127 = 100" by simp
  have h0: "hex_lz32 0 = ''00000000''" by code_simp
  have h48: "hex_lz32 48 = ''00000030''" by code_simp
  have hv: "format_0X 2 100 = ''64''" by code_simp
  have "laneh f' = ''0x'' @ ''00000000'' @ ''00000030'' @ ''64'' @ ''40'' @ ''14''"
    using r(3) unfolding r(4) s d v h0 h48 hv by simp
  then show ?thesis using h2 f' by blast
qed

text \<open>
  A note of velocity -16: the record has 23 characters, one of them the minus sign.
\<close>

theorem encode_note_record_counterexample:
  "map_sum id laneh
     (encode_note \<lparr>resolution = 96, instruments = [], time_to_tick = floor\<rparr>
        \<lparr>tick_offset = 0, source_ppq = 96, dest_ppq = 48, scale_value_by = 1\<rparr> 1
        \<lparr>clip_max = 0, rows = [], laneh = ''0x'', last_start = - 1, last_end = - 1, logs = []\<rparr>
        \<lparr>velocity = - 16, pitch = 60, start = 0, end_time = 96\<rparr>)
     = Inr (''0x'' @ ''00000000'' @ ''00000030'' @ ''-10'' @ ''40'' @ ''14'')
   \<and> length (''00000000'' @ ''00000030'' @ ''-10'' @ ''40'' @ ''14'') = 23
   \<and> CHR ''-'' \<notin> set ''0123456789ABCDEF''"
proof -
  let ?m = "\<lparr>resolution = 96, instruments = [], time_to_tick = floor\<rparr>"
  let ?c = "\<lparr>tick_offset = 0, source_ppq = 96, dest_ppq = 48, scale_value_by = 1\<rparr>"
  let ?n = "\<lparr>velocity = - 16, pitch = 60, start = 0, end_time = 96\<rparr>"
  have ct: "convert_time ?c 0 = Inr 0" "convert_time ?c 96 = Inr 48" by code_simp+
  have c: "note_converts ?m ?c ?n" by (simp add: note_converts_def ct)
  have ds: "t_dstart ?m ?c ?n = 0" by (simp add: t_dstart_def ct)
  have dd: "t_ddur ?m ?c ?n = 48" by (simp add: t_ddur_def ct)
  have v: "min (velocity ?n) 127 = - 16" by simp
  have h0: "hex_lz32 0 = ''00000000''" by code_simp
  have h1: "hex_lz32 48 = ''00000030''" by code_simp
  have h2: "format_0X 2 (- 16) = ''-10''" by code_simp
  have nh: "note_hex ?m ?c ?n = ''00000000'' @ ''00000030'' @ ''-10'' @ ''40'' @ ''14''"
    unfolding note_hex_eq ds dd v h0 h1 h2 ..
  show ?thesis unfolding encode_note_Inr [OF c] nh by simp
qed

section \<open>Decimal strings\<close>

lemma digit_val_dec_digit: "k < 10 \<Longrightarrow> digit_val (dec_digit k) = Some k"
proof -
  have "list_all (\<lambda>k. digit_val (dec_digit k) = Some k) [0 ..< 10]" by code_simp
  moreover assume "k < 10"
  ultimately show ?thesis by (simp add: list_all_iff)
qed

lemma dec_digit_no_sign: "k < 10 \<Longrightarrow> dec_digit k \<noteq> CHR ''-'' \<and> dec_digit k \<noteq> CHR ''+''"
proof -
  have "list_all (\<lambda>k. dec_digit k \<noteq> CHR ''-'' \<and> dec_digit k \<noteq> CHR ''+'') [0 ..< 10]"
    by code_simp
  moreover assume "k < 10"
  ultimately show ?thesis by (simp add: list_all_iff)
qed

lemma nat_of_dec_append:
  "nat_of_dec acc (xs @ ys) = (case nat_of_dec acc xs of None \<Rightarrow> None | Some a \<Rightarrow> nat_of_dec a ys)"
  by (induction xs arbitrary: acc) (auto split: option.splits)

lemma nat_of_dec_dec_of_nat: "nat_of_dec 0 (dec_of_nat n) = Some n"
proof (induction n rule: dec_of_nat.induct)
  case (1 n)
  show ?case
  proof (cases "n < 10")
    case True
    then show ?thesis by (subst dec_of_nat.simps) (simp add: digit_val_dec_digit)
  next
    case False
    then have "nat_of_dec 0 (dec_of_nat (n div 10)) = Some (n div 10)" using 1 by simp
    moreover have "digit_val (dec_digit (n mod 10)) = Some (n mod 10)"
      by (rule digit_val_dec_digit) simp
    ultimately show ?thesis using False
      by (subst dec_of_nat.simps) (simp add: nat_of_dec_append)
  qed
qed

lemma dec_of_nat_head: "\<exists>c cs. dec_of_nat n = c # cs \<and> c \<noteq> CHR ''-'' \<and> c \<noteq> CHR ''+''"
proof (induction n rule: dec_of_nat.induct)
  case (1 n)
  show ?case
  proof (cases "n < 10")
    case True
    then show ?thesis using dec_digit_no_sign [of n] by (subst dec_of_nat.simps) simp
  next
    case False
    then obtain c cs where "dec_of_nat (n div 10) = c # cs" "c \<noteq> CHR ''-''" "c \<noteq> CHR ''+''"
      using 1 by blast
    then show ?thesis using False by (subst dec_of_nat.simps) simp
  qed
qed

lemma py_int_py_str: "py_int (py_str v) = Some v"
proof (cases "v < 0")
  case True
  obtain c cs where "dec_of_nat (nat (- v)) = c # cs" using dec_of_nat_head by blast
  then have "dec_of_nat (nat (- v)) \<noteq> []" by simp
  then show ?thesis using True by (simp add: py_int_def py_str_def nat_of_dec_dec_of_nat)
next
  case False
  obtain c cs where c: "dec_of_nat (nat v) = c # cs" "c \<noteq> CHR ''-''" "c \<noteq> CHR ''+''"
    using dec_of_nat_head by blast
  have "py_int (dec_of_nat (nat v)) = map_option int (nat_of_dec 0 (dec_of_nat (nat v)))"
    unfolding py_int_def c(1) using c(2,3) by simp
  then show ?thesis using False by (simp add: py_str_def nat_of_dec_dec_of_nat)
qed

section \<open>Sorting\<close>

lemma insort_key_map:
  "insort_key k (g x) (map g xs) = map g (insort_key (\<lambda>x. k (g x)) x xs)"
  by (induction xs) simp_all

lemma sort_key_map: "sort_key k (map g xs) = map g (sort_key (\<lambda>x. k (g x)) xs)"
  by (induction xs) (simp_all add: insort_key_map)

section \<open>The loops over the notes and the lanes\<close>

lemma level_note_warnings: "w \<in> set (note_warnings midi track_num ls le note) \<Longrightarrow> level w = WARNING"
  by (auto simp: note_warnings_def split: if_splits)

lemma level_lane_warnings: "w \<in> set (lane_warnings midi track_num ls le ns) \<Longrightarrow> level w = WARNING"
  by (induction ns arbitrary: ls le) (auto simp: level_note_warnings)

lemma encode_notes_Inr:
  assumes "\<forall>n\<in>set ns. note_converts midi context n"
  shows "\<exists>f'. encode_notes midi context track_num f ns = Inr f'
           \<and> laneh f' = laneh f @ concat (map (note_hex midi context) ns)
           \<and> rows f' = rows f
           \<and> clip_max f \<le> clip_max f'
           \<and> (\<forall>n\<in>set ns. t_dstart midi context n + t_ddur midi context n \<le> clip_max f')
           \<and> logs f' = logs f @ lane_warnings midi track_num (last_start f) (last_end f) ns"
  using assms
proof (induction ns arbitrary: f)
  case Nil
  show ?case by simp
next
  case (Cons n ns)
  let ?f1 = "f\<lparr>clip_max := max (clip_max f) (t_dstart midi context n + t_ddur midi context n),
               laneh := laneh f @ note_hex midi context n,
               last_start := time_to_tick midi (start n),
               last_end := time_to_tick midi (end_time n),
               logs := logs f @ note_warnings midi track_num (last_start f) (last_end f) n\<rparr>"
  have nc: "note_converts midi context n" using Cons.prems by simp
  have rest: "\<forall>n\<in>set ns. note_converts midi context n" using Cons.prems by simp
  have step: "encode_note midi context track_num f n = Inr ?f1"
    by (rule encode_note_Inr [OF nc])
  from Cons.IH [OF rest, of ?f1] obtain f' where
    r: "encode_notes midi context track_num ?f1 ns = Inr f'"
      "laneh f' = laneh ?f1 @ concat (map (note_hex midi context) ns)"
      "rows f' = rows ?f1" "clip_max ?f1 \<le> clip_max f'"
      "\<forall>n\<in>set ns. t_dstart midi context n + t_ddur midi context n \<le> clip_max f'"
      "logs f' = logs ?f1 @ lane_warnings midi track_num (last_start ?f1) (last_end ?f1) ns"
    by blast
  have 1: "encode_notes midi context track_num f (n # ns) = Inr f'" using step r(1) by simp
  have 2: "laneh f' = laneh f @ concat (map (note_hex midi context) (n # ns))" using r(2) by simp
  have 3: "rows f' = rows f" using r(3) by simp
  have 4: "clip_max f \<le> clip_max f'" using r(4) by simp
  have 5: "\<forall>n\<in>set (n # ns). t_dstart midi context n + t_ddur midi context n \<le> clip_max f'"
    using r(4,5) by simp
  have 6: "logs f' = logs f @ lane_warnings midi track_num (last_start f) (last_end f) (n # ns)"
    using r(6) by simp
  from 1 2 3 4 5 6 show ?case by blast
qed

lemma encode_notes_Inr_D:
  "encode_notes midi context track_num f ns = Inr f' \<Longrightarrow> \<forall>n\<in>set ns. note_converts midi context n"
proof (induction ns arbitrary: f)
  case Nil
  show ?case by simp
next
  case (Cons n ns)
  from Cons.prems obtain f1 where
    a: "encode_note midi context track_num f n = Inr f1"
      "encode_notes midi context track_num f1 ns = Inr f'"
    by (auto split: sum.splits)
  have "note_converts midi context n" using a(1) by (rule encode_note_Inr_D)
  moreover have "\<forall>n\<in>set ns. note_converts midi context n" using a(2) by (rule Cons.IH)
  ultimately show ?case by simp
qed

lemma encode_lane_Inr:
  assumes "\<forall>n\<in>set (snd lane). note_converts midi context n"
  shows "\<exists>f'. encode_lane midi context track_num f lane = Inr f'
           \<and> rows f' = rows f @ [lane_row midi context lane]
           \<and> clip_max f \<le> clip_max f'
           \<and> (\<forall>n\<in>set (snd lane). t_dstart midi context n + t_ddur midi context n \<le> clip_max f')
           \<and> logs f' = logs f @ lane_warnings midi track_num (- 1) (- 1) (sort_key start (snd lane))"
proof -
  let ?f0 = "f\<lparr>laneh := ''0x'', last_start := - 1, last_end := - 1\<rparr>"
  let ?ns = "sort_key start (snd lane)"
  have "\<forall>n\<in>set ?ns. note_converts midi context n" using assms by simp
  from encode_notes_Inr [OF this, of track_num ?f0] obtain f1 where
    r: "encode_notes midi context track_num ?f0 ?ns = Inr f1"
      "laneh f1 = laneh ?f0 @ concat (map (note_hex midi context) ?ns)"
      "rows f1 = rows ?f0" "clip_max ?f0 \<le> clip_max f1"
      "\<forall>n\<in>set ?ns. t_dstart midi context n + t_ddur midi context n \<le> clip_max f1"
      "logs f1 = logs ?f0 @ lane_warnings midi track_num (last_start ?f0) (last_end ?f0) ?ns"
    by blast
  let ?f' = "f1\<lparr>rows := rows f1 @ [\<lparr>row_y = py_str (fst lane), noteDataWithLift = laneh f1\<rparr>]\<rparr>"
  have 1: "encode_lane midi context track_num f lane = Inr ?f'"
    using r(1) by (simp add: encode_lane_def)
  have 2: "rows ?f' = rows f @ [lane_row midi context lane]"
    using r(2,3) by (simp add: lane_row_def)
  have 3: "clip_max f \<le> clip_max ?f'" using r(4) by simp
  have 4: "\<forall>n\<in>set (snd lane). t_dstart midi context n + t_ddur midi context n \<le> clip_max ?f'"
    using r(5) by simp
  have 5: "logs ?f' = logs f @ lane_warnings midi track_num (- 1) (- 1) ?ns" using r(6) by simp
  from 1 2 3 4 5 show ?thesis by blast
qed

lemma encode_lane_Inr_D:
  assumes "encode_lane midi context track_num f lane = Inr f'"
  shows "\<forall>n\<in>set (snd lane). note_converts midi context n"
proof -
  from assms obtain f1 where
    "encode_notes midi context track_num (f\<lparr>laneh := ''0x'', last_start := - 1, last_end := - 1\<rparr>)
       (sort_key start (snd lane)) = Inr f1"
    by (auto simp: encode_lane_def Let_def split: sum.splits)
  from encode_notes_Inr_D [OF this] show ?thesis by simp
qed

lemma encode_lanes_Inr:
  assumes "\<forall>lane\<in>set lanes. \<forall>n\<in>set (snd lane). note_converts midi context n"
  shows "\<exists>f' ws. encode_lanes midi context track_num f lanes = Inr f'
           \<and> rows f' = rows f @ map (lane_row midi context) lanes
           \<and> clip_max f \<le> clip_max f'
           \<and> (\<forall>lane\<in>set lanes. \<forall>n\<in>set (snd lane).
                 t_dstart midi context n + t_ddur midi context n \<le> clip_max f')
           \<and> logs f' = logs f @ ws \<and> (\<forall>w\<in>set ws. level w = WARNING)"
  using assms
proof (induction lanes arbitrary: f)
  case Nil
  show ?case by simp
next
  case (Cons lane lanes)
  have hd: "\<forall>n\<in>set (snd lane). note_converts midi context n" using Cons.prems by simp
  have rest: "\<forall>lane\<in>set lanes. \<forall>n\<in>set (snd lane). note_converts midi context n"
    using Cons.prems by simp
  define ws1 where "ws1 = lane_warnings midi track_num (- 1) (- 1) (sort_key start (snd lane))"
  from encode_lane_Inr [OF hd, of track_num f] obtain f1 where
    a: "encode_lane midi context track_num f lane = Inr f1"
      "rows f1 = rows f @ [lane_row midi context lane]" "clip_max f \<le> clip_max f1"
      "\<forall>n\<in>set (snd lane). t_dstart midi context n + t_ddur midi context n \<le> clip_max f1"
      "logs f1 = logs f @ ws1"
    unfolding ws1_def by blast
  have a6: "\<forall>w\<in>set ws1. level w = WARNING" unfolding ws1_def using level_lane_warnings by blast
  from Cons.IH [OF rest, of f1] obtain f' ws where
    r: "encode_lanes midi context track_num f1 lanes = Inr f'"
      "rows f' = rows f1 @ map (lane_row midi context) lanes" "clip_max f1 \<le> clip_max f'"
      "\<forall>lane\<in>set lanes. \<forall>n\<in>set (snd lane).
          t_dstart midi context n + t_ddur midi context n \<le> clip_max f'"
      "logs f' = logs f1 @ ws" "\<forall>w\<in>set ws. level w = WARNING"
    by blast
  have 1: "encode_lanes midi context track_num f (lane # lanes) = Inr f'" using a(1) r(1) by simp
  have 2: "rows f' = rows f @ map (lane_row midi context) (lane # lanes)" using a(2) r(2) by simp
  have 3: "clip_max f \<le> clip_max f'" using a(3) r(3) by simp
  have 4: "\<forall>l\<in>set (lane # lanes). \<forall>n\<in>set (snd l).
             t_dstart midi context n + t_ddur midi context n \<le> clip_max f'"
  proof (intro ballI)
    fix l n assume l: "l \<in> set (lane # lanes)" and n: "n \<in> set (snd l)"
    show "t_dstart midi context n + t_ddur midi context n \<le> clip_max f'"
    proof (cases "l = lane")
      case True
      then have "t_dstart midi context n + t_ddur midi context n \<le> clip_max f1" using a(4) n by simp
      then show ?thesis using r(3) by simp
    next
      case False
      then have "l \<in> set lanes" using l by simp
      then show ?thesis using r(4) n by blast
    qed
  qed
  have 5: "logs f' = logs f @ (ws1 @ ws)" using a(5) r(5) by simp
  have 6: "\<forall>w\<in>set (ws1 @ ws). level w = WARNING" using a6 r(6) by auto
  from 1 2 3 4 5 6 show ?case by blast
qed

lemma encode_lanes_Inr_D:
  "encode_lanes midi context track_num f lanes = Inr f' \<Longrightarrow>
   \<forall>lane\<in>set lanes. \<forall>n\<in>set (snd lane). note_converts midi context n"
proof (induction lanes arbitrary: f)
  case Nil
  show ?case by simp
next
  case (Cons lane lanes)
  from Cons.prems obtain f1 where
    a: "encode_lane midi context track_num f lane = Inr f1"
      "encode_lanes midi context track_num f1 lanes = Inr f'"
    by (auto split: sum.splits)
  have "\<forall>n\<in>set (snd lane). note_converts midi context n" using a(1) by (rule encode_lane_Inr_D)
  moreover have "\<forall>lane\<in>set lanes. \<forall>n\<in>set (snd lane). note_converts midi context n"
    using a(2) by (rule Cons.IH)
  ultimately show ?case by simp
qed

lemma count_list_insort_key: "count_list (insort_key k x xs) y = count_list (x # xs) y"
  by (induction xs) auto

lemma count_list_sort_key: "count_list (sort_key k xs) y = count_list xs y"
  by (induction xs) (simp_all add: count_list_insort_key)

lemma length_concat_note_hex:
  "(\<forall>n\<in>set ns. 0 \<le> velocity n) \<Longrightarrow> length (concat (map (note_hex midi context) ns)) = 22 * length ns"
  by (induction ns) (simp_all add: note_hex_parts(1))

lemma lane_warnings_out_of_order:
  assumes "Suc i < length ns"
    and "time_to_tick midi (start (ns ! Suc i)) \<le> time_to_tick midi (start (ns ! i))"
  shows "OutOfOrderMIDI (time_to_tick midi (start (ns ! Suc i))) (time_to_tick midi (start (ns ! i)))
           track_num \<in> set (lane_warnings midi track_num ls le ns)"
  using assms
proof (induction ns arbitrary: i ls le)
  case Nil
  then show ?case by simp
next
  case (Cons n ns)
  show ?case
  proof (cases i)
    case 0
    then obtain b rest where ns: "ns = b # rest" using Cons.prems(1) by (cases ns) auto
    then show ?thesis using Cons.prems(2) 0 by (simp add: note_warnings_def)
  next
    case (Suc j)
    then have "Suc j < length ns"
      and "time_to_tick midi (start (ns ! Suc j)) \<le> time_to_tick midi (start (ns ! j))"
      using Cons.prems by simp_all
    from Cons.IH [OF this] show ?thesis using Suc by simp
  qed
qed

lemma lane_warnings_overlapping:
  assumes "Suc i < length ns"
    and "time_to_tick midi (start (ns ! Suc i)) < time_to_tick midi (end_time (ns ! i))"
  shows "OverlappingNote (time_to_tick midi (start (ns ! Suc i))) (time_to_tick midi (end_time (ns ! i)))
           track_num \<in> set (lane_warnings midi track_num ls le ns)"
  using assms
proof (induction ns arbitrary: i ls le)
  case Nil
  then show ?case by simp
next
  case (Cons n ns)
  show ?case
  proof (cases i)
    case 0
    then obtain b rest where ns: "ns = b # rest" using Cons.prems(1) by (cases ns) auto
    then show ?thesis using Cons.prems(2) 0 by (simp add: note_warnings_def)
  next
    case (Suc j)
    then have "Suc j < length ns"
      and "time_to_tick midi (start (ns ! Suc j)) < time_to_tick midi (end_time (ns ! j))"
      using Cons.prems by simp_all
    from Cons.IH [OF this] show ?thesis using Suc by simp
  qed
qed

text \<open>
  C9, as amended. Whatever the order and the overlaps of the notes of a lane, encoding the
  lane returns as soon as the conversions of the start and of the duration of each single
  note return: it appends one note row whose data is \<open>0x\<close> followed by the records of the
  notes of the lane, sorted by start, each note contributing the record of its own start,
  duration and velocity; no note is dropped or added (every note occurs in the sorted lane
  as often as in the lane). What is logged are the warnings of the loop, all of level
  \<open>WARNING\<close>: for every note of the sorted lane that starts at or before the start tick of
  its predecessor an out-of-order warning with both ticks, and for every note that starts
  before the end tick of its predecessor an overlap warning with both ticks. With
  velocities that are not negative the records take 22 characters each.
\<close>

theorem encode_lane_anomalies:
  assumes "\<forall>n\<in>set pitch_notes. note_converts midi context n"
  shows "\<exists>f' ws. encode_lane midi context track_num f (p, pitch_notes) = Inr f'
           \<and> rows f' = rows f @ [\<lparr>row_y = py_str p,
                 noteDataWithLift = ''0x'' @ concat (map (note_hex midi context) (sort_key start pitch_notes))\<rparr>]
           \<and> (\<forall>n. count_list (sort_key start pitch_notes) n = count_list pitch_notes n)
           \<and> logs f' = logs f @ ws
           \<and> ws = lane_warnings midi track_num (- 1) (- 1) (sort_key start pitch_notes)
           \<and> (\<forall>w\<in>set ws. level w = WARNING)
           \<and> (\<forall>i. Suc i < length pitch_notes \<longrightarrow>
                 (time_to_tick midi (start (sort_key start pitch_notes ! Suc i))
                    \<le> time_to_tick midi (start (sort_key start pitch_notes ! i)) \<longrightarrow>
                  OutOfOrderMIDI (time_to_tick midi (start (sort_key start pitch_notes ! Suc i)))
                    (time_to_tick midi (start (sort_key start pitch_notes ! i))) track_num \<in> set ws)
                 \<and> (time_to_tick midi (start (sort_key start pitch_notes ! Suc i))
                      < time_to_tick midi (end_time (sort_key start pitch_notes ! i)) \<longrightarrow>
                    OverlappingNote (time_to_tick midi (start (sort_key start pitch_notes ! Suc i)))
                      (time_to_tick midi (end_time (sort_key start pitch_notes ! i))) track_num \<in> set ws))
           \<and> ((\<forall>n\<in>set pitch_notes. 0 \<le> velocity n) \<longrightarrow>
                length (concat (map (note_hex midi context) (sort_key start pitch_notes)))
                  = 22 * length pitch_notes)"
proof -
  let ?S = "sort_key start pitch_notes"
  let ?ws = "lane_warnings midi track_num (- 1) (- 1) ?S"
  have "\<forall>n\<in>set (snd (p, pitch_notes)). note_converts midi context n" using assms by simp
  from encode_lane_Inr [OF this, of track_num f] obtain f' where
    r: "encode_lane midi context track_num f (p, pitch_notes) = Inr f'"
      "rows f' = rows f @ [lane_row midi context (p, pitch_notes)]"
      "logs f' = logs f @ ?ws"
    by auto
  have 2: "rows f' = rows f @ [\<lparr>row_y = py_str p,
                 noteDataWithLift = ''0x'' @ concat (map (note_hex midi context) ?S)\<rparr>]"
    using r(2) by (simp add: lane_row_def)
  have 3: "\<forall>n. count_list ?S n = count_list pitch_notes n"
    by (simp add: count_list_sort_key)
  have 4: "\<forall>w\<in>set ?ws. level w = WARNING" using level_lane_warnings by blast
  have 5: "\<forall>i. Suc i < length pitch_notes \<longrightarrow>
                 (time_to_tick midi (start (?S ! Suc i)) \<le> time_to_tick midi (start (?S ! i)) \<longrightarrow>
                  OutOfOrderMIDI (time_to_tick midi (start (?S ! Suc i)))
                    (time_to_tick midi (start (?S ! i))) track_num \<in> set ?ws)
                 \<and> (time_to_tick midi (start (?S ! Suc i)) < time_to_tick midi (end_time (?S ! i)) \<longrightarrow>
                    OverlappingNote (time_to_tick midi (start (?S ! Suc i)))
                      (time_to_tick midi (end_time (?S ! i))) track_num \<in> set ?ws)"
  proof (intro allI impI conjI)
    fix i assume i: "Suc i < length pitch_notes"
    then have l: "Suc i < length ?S" by simp
    {
      assume "time_to_tick midi (start (?S ! Suc i)) \<le> time_to_tick midi (start (?S ! i))"
      with l show "OutOfOrderMIDI (time_to_tick midi (start (?S ! Suc i)))
                    (time_to_tick midi (start (?S ! i))) track_num \<in> set ?ws"
        by (rule lane_warnings_out_of_order)
    }
    {
      assume "time_to_tick midi (start (?S ! Suc i)) < time_to_tick midi (end_time (?S ! i))"
      with l show "OverlappingNote (time_to_tick midi (start (?S ! Suc i)))
                      (time_to_tick midi (end_time (?S ! i))) track_num \<in> set ?ws"
        by (rule lane_warnings_overlapping)
    }
  qed
  have 6: "(\<forall>n\<in>set pitch_notes. 0 \<le> velocity n) \<longrightarrow>
             length (concat (map (note_hex midi context) ?S)) = 22 * length pitch_notes"
    using length_concat_note_hex [of "?S" midi "context"] by simp
  from r(1) 2 3 r(3) 4 5 6 show ?thesis by blast
qed

theorem encode_lane_anomalies_witness:
  "note_converts \<lparr>resolution = 96, instruments = [], time_to_tick = floor\<rparr>
     \<lparr>tick_offset = 0, source_ppq = 96, dest_ppq = 48, scale_value_by = 1\<rparr>
     \<lparr>velocity = 90, pitch = 60, start = 50, end_time = 150\<rparr>
   \<and> note_converts \<lparr>resolution = 96, instruments = [], time_to_tick = floor\<rparr>
     \<lparr>tick_offset = 0, source_ppq = 96, dest_ppq = 48, scale_value_by = 1\<rparr>
     \<lparr>velocity = 100, pitch = 60, start = 0, end_time = 100\<rparr>
   \<and> (\<exists>f'. encode_lane \<lparr>resolution = 96, instruments = [], time_to_tick = floor\<rparr>
              \<lparr>tick_offset = 0, source_ppq = 96, dest_ppq = 48, scale_value_by = 1\<rparr> 1
              \<lparr>clip_max = 75, rows = [], laneh = [], last_start = - 1, last_end = - 1, logs = []\<rparr>
              (60, [\<lparr>velocity = 90, pitch = 60, start = 50, end_time = 150\<rparr>,
                    \<lparr>velocity = 100, pitch = 60, start = 0, end_time = 100\<rparr>]) = Inr f'
         \<and> rows f' = [\<lparr>row_y = ''60'',
               noteDataWithLift = ''0x'' @ (''00000000'' @ ''00000032'' @ ''64'' @ ''40'' @ ''14'')
                                        @ (''00000019'' @ ''00000032'' @ ''5A'' @ ''40'' @ ''14'')\<rparr>]
         \<and> logs f' = [OverlappingNote 50 100 1]
         \<and> level (OverlappingNote 50 100 1) = WARNING)
   \<and> (\<exists>f'. encode_lane \<lparr>resolution = 96, instruments = [], time_to_tick = floor\<rparr>
              \<lparr>tick_offset = 0, source_ppq = 96, dest_ppq = 48, scale_value_by = 1\<rparr> 1
              \<lparr>clip_max = 75, rows = [], laneh = [], last_start = - 1, last_end = - 1, logs = []\<rparr>
              (60, [\<lparr>velocity = 90, pitch = 60, start = 1 / 2, end_time = 150\<rparr>,
                    \<lparr>velocity = 100, pitch = 60, start = 0, end_time = 100\<rparr>]) = Inr f'
         \<and> logs f' = [OutOfOrderMIDI 0 0 1, OverlappingNote 0 100 1])"
proof -
  let ?m = "\<lparr>resolution = 96, instruments = [], time_to_tick = floor\<rparr>"
  let ?c = "\<lparr>tick_offset = 0, source_ppq = 96, dest_ppq = 48, scale_value_by = 1\<rparr>"
  let ?f = "\<lparr>clip_max = 75, rows = [], laneh = [], last_start = - 1, last_end = - 1, logs = []\<rparr>"
  let ?n1 = "\<lparr>velocity = 100, pitch = 60, start = 0, end_time = 100\<rparr>"
  let ?n2 = "\<lparr>velocity = 90, pitch = 60, start = 50, end_time = 150\<rparr>"
  let ?n3 = "\<lparr>velocity = 90, pitch = 60, start = 1 / 2, end_time = 150\<rparr>"
  have ct: "convert_time ?c 0 = Inr 0" "convert_time ?c 50 = Inr 25" "convert_time ?c 100 = Inr 50"
    "convert_time ?c 150 = Inr 75"
    by code_simp+
  have nc1: "note_converts ?m ?c ?n1" and nc2: "note_converts ?m ?c ?n2"
    and nc3: "note_converts ?m ?c ?n3"
    by (simp_all add: note_converts_def ct)
  have h: "\<forall>n\<in>set [?n2, ?n1]. note_converts ?m ?c n" using nc1 nc2 by simp
  have h': "\<forall>n\<in>set [?n3, ?n1]. note_converts ?m ?c n" using nc1 nc3 by simp
  have srt: "sort_key start [?n2, ?n1] = [?n1, ?n2]" by simp
  have srt': "sort_key start [?n3, ?n1] = [?n1, ?n3]" by simp
  have s1: "t_dstart ?m ?c ?n1 = 0" and d1: "t_ddur ?m ?c ?n1 = 50"
    and s2: "t_dstart ?m ?c ?n2 = 25" and d2: "t_ddur ?m ?c ?n2 = 50"
    by (simp_all add: t_dstart_def t_ddur_def ct)
  have x0: "hex_lz32 0 = ''00000000''" and x25: "hex_lz32 25 = ''00000019''"
    and x50: "hex_lz32 50 = ''00000032''" and v100: "format_0X 2 100 = ''64''"
    and v90: "format_0X 2 90 = ''5A''" and p: "py_str 60 = ''60''"
    by code_simp+
  have v1: "min (velocity ?n1) 127 = 100" and v2: "min (velocity ?n2) 127 = 90" by simp_all
  have nh1: "note_hex ?m ?c ?n1 = ''00000000'' @ ''00000032'' @ ''64'' @ ''40'' @ ''14''"
    unfolding note_hex_eq s1 d1 v1 x0 x50 v100 ..
  have nh2: "note_hex ?m ?c ?n2 = ''00000019'' @ ''00000032'' @ ''5A'' @ ''40'' @ ''14''"
    unfolding note_hex_eq s2 d2 v2 x25 x50 v90 ..
  from encode_lane_anomalies [OF h, of 1 "?f" 60] obtain f' ws where
    r: "encode_lane ?m ?c 1 ?f (60, [?n2, ?n1]) = Inr f'"
      "rows f' = rows ?f @ [\<lparr>row_y = py_str 60,
          noteDataWithLift = ''0x'' @ concat (map (note_hex ?m ?c) (sort_key start [?n2, ?n1]))\<rparr>]"
      "logs f' = logs ?f @ ws"
      "ws = lane_warnings ?m 1 (- 1) (- 1) (sort_key start [?n2, ?n1])"
    by blast
  have rw: "rows f' = [\<lparr>row_y = ''60'',
               noteDataWithLift = ''0x'' @ (''00000000'' @ ''00000032'' @ ''64'' @ ''40'' @ ''14'')
                                        @ (''00000019'' @ ''00000032'' @ ''5A'' @ ''40'' @ ''14'')\<rparr>]"
    using r(2) unfolding srt p by (simp add: nh1 nh2)
  have "ws = [OverlappingNote 50 100 1]" unfolding r(4) srt by (simp add: note_warnings_def)
  then have lg: "logs f' = [OverlappingNote 50 100 1]" using r(3) by simp
  from encode_lane_anomalies [OF h', of 1 "?f" 60] obtain f'' ws' where
    r': "encode_lane ?m ?c 1 ?f (60, [?n3, ?n1]) = Inr f''"
      "logs f'' = logs ?f @ ws'"
      "ws' = lane_warnings ?m 1 (- 1) (- 1) (sort_key start [?n3, ?n1])"
    by blast
  have "ws' = [OutOfOrderMIDI 0 0 1, OverlappingNote 0 100 1]"
    unfolding r'(3) srt' by (simp add: note_warnings_def)
  then have lg': "logs f'' = [OutOfOrderMIDI 0 0 1, OverlappingNote 0 100 1]" using r'(2) by simp
  have a: "\<exists>f'. encode_lane ?m ?c 1 ?f (60, [?n2, ?n1]) = Inr f'
         \<and> rows f' = [\<lparr>row_y = ''60'',
               noteDataWithLift = ''0x'' @ (''00000000'' @ ''00000032'' @ ''64'' @ ''40'' @ ''14'')
                                        @ (''00000019'' @ ''00000032'' @ ''5A'' @ ''40'' @ ''14'')\<rparr>]
         \<and> logs f' = [OverlappingNote 50 100 1]
         \<and> level (OverlappingNote 50 100 1) = WARNING"
    using r(1) rw lg by simp
  have b: "\<exists>f'. encode_lane ?m ?c 1 ?f (60, [?n3, ?n1]) = Inr f'
         \<and> logs f' = [OutOfOrderMIDI 0 0 1, OverlappingNote 0 100 1]"
    using r'(1) lg' by blast
  from nc2 nc1 a b show ?thesis by blast
qed

text \<open>
  Two overlapping notes of velocity -16 on pitch 60: both are encoded, and each record has
  23 characters.
\<close>

theorem encode_lane_anomalies_counterexample:
  "map_sum id rows
     (encode_lane \<lparr>resolution = 96, instruments = [], time_to_tick = floor\<rparr>
        \<lparr>tick_offset = 0, source_ppq = 96, dest_ppq = 48, scale_value_by = 1\<rparr> 1
        \<lparr>clip_max = 75, rows = [], laneh = [], last_start = - 1, last_end = - 1, logs = []\<rparr>
        (60, [\<lparr>velocity = - 16, pitch = 60, start = 50, end_time = 150\<rparr>,
              \<lparr>velocity = - 16, pitch = 60, start = 0, end_time = 100\<rparr>]))
     = Inr [\<lparr>row_y = ''60'',
             noteDataWithLift = ''0x'' @ (''00000000'' @ ''00000032'' @ ''-10'' @ ''40'' @ ''14'')
                                      @ (''00000019'' @ ''00000032'' @ ''-10'' @ ''40'' @ ''14'')\<rparr>]
   \<and> length (''00000000'' @ ''00000032'' @ ''-10'' @ ''40'' @ ''14'') = 23
   \<and> length (''00000019'' @ ''00000032'' @ ''-10'' @ ''40'' @ ''14'') = 23"
proof -
  let ?m = "\<lparr>resolution = 96, instruments = [], time_to_tick = floor\<rparr>"
  let ?c = "\<lparr>tick_offset = 0, source_ppq = 96, dest_ppq = 48, scale_value_by = 1\<rparr>"
  let ?f = "\<lparr>clip_max = 75, rows = [], laneh = [], last_start = - 1, last_end = - 1, logs = []\<rparr>"
  let ?n1 = "\<lparr>velocity = - 16, pitch = 60, start = 0, end_time = 100\<rparr>"
  let ?n2 = "\<lparr>velocity = - 16, pitch = 60, start = 50, end_time = 150\<rparr>"
  have ct: "convert_time ?c 0 = Inr 0" "convert_time ?c 50 = Inr 25" "convert_time ?c 100 = Inr 50"
    by code_simp+
  have nc: "\<forall>n\<in>set (snd (60 :: int, [?n2, ?n1])). note_converts ?m ?c n"
    by (simp add: note_converts_def ct)
  have srt: "sort_key start [?n2, ?n1] = [?n1, ?n2]" by simp
  have s1: "t_dstart ?m ?c ?n1 = 0" and d1: "t_ddur ?m ?c ?n1 = 50"
    and s2: "t_dstart ?m ?c ?n2 = 25" and d2: "t_ddur ?m ?c ?n2 = 50"
    by (simp_all add: t_dstart_def t_ddur_def ct)
  have x0: "hex_lz32 0 = ''00000000''" and x25: "hex_lz32 25 = ''00000019''"
    and x50: "hex_lz32 50 = ''00000032''" and v: "format_0X 2 (- 16) = ''-10''"
    and p: "py_str 60 = ''60''"
    by code_simp+
  have v1: "min (velocity ?n1) 127 = - 16" and v2: "min (velocity ?n2) 127 = - 16" by simp_all
  have nh1: "note_hex ?m ?c ?n1 = ''00000000'' @ ''00000032'' @ ''-10'' @ ''40'' @ ''14''"
    unfolding note_hex_eq s1 d1 v1 x0 x50 v ..
  have nh2: "note_hex ?m ?c ?n2 = ''00000019'' @ ''00000032'' @ ''-10'' @ ''40'' @ ''14''"
    unfolding note_hex_eq s2 d2 v2 x25 x50 v ..
  from encode_lane_Inr [OF nc, of 1 "?f"] obtain f' where
    r: "encode_lane ?m ?c 1 ?f (60, [?n2, ?n1]) = Inr f'"
      "rows f' = rows ?f @ [lane_row ?m ?c (60, [?n2, ?n1])]"
    by blast
  have "rows f' = [\<lparr>row_y = ''60'',
             noteDataWithLift = ''0x'' @ (''00000000'' @ ''00000032'' @ ''-10'' @ ''40'' @ ''14'')
                                      @ (''00000019'' @ ''00000032'' @ ''-10'' @ ''40'' @ ''14'')\<rparr>]"
    using r(2) unfolding lane_row_def fst_conv snd_conv srt p by (simp add: nh1 nh2)
  then show ?thesis unfolding r(1) by simp
qed

section \<open>The lanes of a track\<close>

lemma map_fst_setdefault_append:
  "map fst (setdefault_append k n l) = (if k \<in> set (map fst l) then map fst l else map fst l @ [k])"
proof (induction l)
  case Nil
  show ?case by simp
next
  case (Cons a l)
  obtain k' ns where a: "a = (k', ns)" by (cases a)
  show ?case
  proof (cases "k = k'")
    case True
    then show ?thesis using a by simp
  next
    case False
    then show ?thesis using a Cons.IH by simp
  qed
qed

lemma setdefault_append_keys: "fst ` set (setdefault_append k n l) = insert k (fst ` set l)"
proof -
  have "set (map fst (setdefault_append k n l)) = insert k (set (map fst l))"
    unfolding map_fst_setdefault_append by auto
  then show ?thesis by simp
qed

lemma setdefault_append_distinct:
  "distinct (map fst l) \<Longrightarrow> distinct (map fst (setdefault_append k n l))"
proof (induction l)
  case Nil
  show ?case by simp
next
  case (Cons a l)
  obtain k' ns where a: "a = (k', ns)" by (cases a)
  show ?case
  proof (cases "k = k'")
    case True
    then show ?thesis using Cons.prems a by simp
  next
    case False
    have "k' \<notin> fst ` set (setdefault_append k n l)"
      using Cons.prems a False by (simp add: setdefault_append_keys)
    then show ?thesis using Cons a False by simp
  qed
qed

lemma setdefault_append_lane:
  assumes "lane \<in> set (setdefault_append k n l)" and "distinct (map fst l)"
  shows "(fst lane = k \<and> snd lane = [n] \<and> k \<notin> fst ` set l)
       \<or> (fst lane = k \<and> (\<exists>ns. (k, ns) \<in> set l \<and> snd lane = ns @ [n]))
       \<or> (fst lane \<noteq> k \<and> lane \<in> set l)"
  using assms
proof (induction l)
  case Nil
  then show ?case by simp
next
  case (Cons a l)
  obtain k' ns where a: "a = (k', ns)" by (cases a)
  show ?case
  proof (cases "k = k'")
    case True
    have "k \<notin> fst ` set l" using Cons.prems(2) a True by simp
    then have "\<forall>x\<in>set l. fst x \<noteq> k" by auto
    then show ?thesis using Cons.prems(1) a True by auto
  next
    case False
    show ?thesis
    proof (cases "lane = a")
      case True
      then show ?thesis using a False by auto
    next
      case False': False
      then have "lane \<in> set (setdefault_append k n l)" using Cons.prems(1) a False by simp
      moreover have "distinct (map fst l)" using Cons.prems(2) by simp
      ultimately show ?thesis using Cons.IH False a by auto
    qed
  qed
qed

lemma lanes_inv_step:
  assumes "lanes_inv pre l"
  shows "lanes_inv (pre @ [n]) (setdefault_append (pitch n) n l)"
proof -
  have d: "distinct (map fst l)" and k: "fst ` set l = pitch ` set pre"
    and c: "\<And>lane. lane \<in> set l \<Longrightarrow> snd lane = filter (\<lambda>m. pitch m = fst lane) pre"
    using assms by (auto simp: lanes_inv_def)
  have 1: "distinct (map fst (setdefault_append (pitch n) n l))"
    using d by (rule setdefault_append_distinct)
  have 2: "fst ` set (setdefault_append (pitch n) n l) = pitch ` set (pre @ [n])"
    using k by (simp add: setdefault_append_keys)
  have 3: "snd lane = filter (\<lambda>m. pitch m = fst lane) (pre @ [n])"
    if "lane \<in> set (setdefault_append (pitch n) n l)" for lane
  proof -
    from setdefault_append_lane [OF that d]
    consider (new) "fst lane = pitch n" "snd lane = [n]" "pitch n \<notin> fst ` set l"
      | (old) ns where "fst lane = pitch n" "(pitch n, ns) \<in> set l" "snd lane = ns @ [n]"
      | (other) "fst lane \<noteq> pitch n" "lane \<in> set l"
      by blast
    then show ?thesis
    proof cases
      case new
      then have "pitch n \<notin> pitch ` set pre" using k by simp
      then have "\<forall>m\<in>set pre. pitch m \<noteq> pitch n" by (metis imageI)
      then have "filter (\<lambda>m. pitch m = pitch n) pre = []" by (simp add: filter_empty_conv)
      then show ?thesis using new by simp
    next
      case old
      then have "ns = filter (\<lambda>m. pitch m = pitch n) pre" using c [of "(pitch n, ns)"] by simp
      then show ?thesis using old by simp
    next
      case other
      then show ?thesis using c [of lane] by simp
    qed
  qed
  show ?thesis unfolding lanes_inv_def using 1 2 3 by blast
qed

lemma lanes_inv_foldl:
  "lanes_inv pre l \<Longrightarrow>
   lanes_inv (pre @ ns) (foldl (\<lambda>lanes note. setdefault_append (pitch note) note lanes) l ns)"
proof (induction ns arbitrary: pre l)
  case Nil
  then show ?case by simp
next
  case (Cons n ns)
  from Cons.IH [OF lanes_inv_step [OF Cons.prems, of n]] show ?case by simp
qed

lemma lanes_inv_organize: "lanes_inv ns (organize_lanes ns)"
proof -
  have "lanes_inv [] []" by (simp add: lanes_inv_def)
  from lanes_inv_foldl [OF this, of ns] show ?thesis by (simp add: organize_lanes_def)
qed

lemma organize_lanes_covers:
  assumes "n \<in> set ns"
  shows "\<exists>lane\<in>set (organize_lanes ns). n \<in> set (snd lane)"
proof -
  have i: "lanes_inv ns (organize_lanes ns)" by (rule lanes_inv_organize)
  then have "pitch n \<in> fst ` set (organize_lanes ns)" using assms by (auto simp: lanes_inv_def)
  then obtain lane where l: "lane \<in> set (organize_lanes ns)" "fst lane = pitch n" by auto
  then have "snd lane = filter (\<lambda>m. pitch m = fst lane) ns" using i by (simp add: lanes_inv_def)
  then have "n \<in> set (snd lane)" using assms l(2) by simp
  then show ?thesis using l(1) by blast
qed

lemma organize_lanes_subset:
  assumes "lane \<in> set (organize_lanes ns)"
  shows "set (snd lane) \<subseteq> set ns" and "\<forall>n\<in>set (snd lane). pitch n = fst lane" and "snd lane \<noteq> []"
proof -
  have i: "lanes_inv ns (organize_lanes ns)" by (rule lanes_inv_organize)
  then have s: "snd lane = filter (\<lambda>m. pitch m = fst lane) ns" using assms by (simp add: lanes_inv_def)
  show "set (snd lane) \<subseteq> set ns" by (subst s) simp
  show "\<forall>n\<in>set (snd lane). pitch n = fst lane" by (subst s) simp
  have "fst lane \<in> pitch ` set ns" using i assms by (auto simp: lanes_inv_def)
  then obtain m where "m \<in> set ns" "pitch m = fst lane" by auto
  then have "m \<in> set (filter (\<lambda>m. pitch m = fst lane) ns)" by simp
  then have "m \<in> set (snd lane)" by (simp only: s)
  then show "snd lane \<noteq> []" by (cases "snd lane") simp_all
qed

lemma map_insort_key: "map k (insort_key k x xs) = insort (k x) (map k xs)"
  by (induction xs) simp_all

lemma map_sort_key: "map k (sort_key k xs) = sort (map k xs)"
  by (induction xs) (simp_all add: map_insort_key)

lemma sorted_keys_strict:
  assumes "distinct (map fst l)"
  shows "sorted_wrt (<) (map fst (sort_key fst l))" and "distinct (map fst (sort_key fst l))"
proof -
  have e: "map fst (sort_key fst l) = sort (map fst l)" by (rule map_sort_key)
  show d: "distinct (map fst (sort_key fst l))" unfolding e using assms by simp
  have "sorted (map fst (sort_key fst l))" unfolding e by simp
  then show "sorted_wrt (<) (map fst (sort_key fst l))" using d by (simp add: strict_sorted_iff)
qed

section \<open>Tracks and clips\<close>

lemma sorted_by_int_y_lane_rows:
  "sorted_by_int_y (map (lane_row midi context) lanes)
     = Inr (map (lane_row midi context) (sort_key fst lanes))"
proof -
  have k: "py_int (row_y (lane_row midi context lane)) = Some (fst lane)" for lane
    by (simp add: lane_row_def py_int_py_str)
  have a: "list_all (\<lambda>x. py_int (row_y x) \<noteq> None) (map (lane_row midi context) lanes)"
    by (simp add: list_all_iff k)
  have "(\<lambda>lane. the (py_int (row_y (lane_row midi context lane)))) = fst"
    by (rule ext) (simp add: k)
  then have "sort_key (\<lambda>x. the (py_int (row_y x))) (map (lane_row midi context) lanes)
               = map (lane_row midi context) (sort_key fst lanes)"
    by (simp add: sort_key_map)
  then show ?thesis using a by (simp add: sorted_by_int_y_def)
qed

lemma convert_track_skipped:
  assumes "\<not> surviving instrument"
  shows "\<exists>lg'. convert_track midi (clip_data, lg) (track_num, instrument) = Inr (clip_data, lg')"
proof (cases "is_drum instrument")
  case True
  then show ?thesis by (simp add: convert_track_def)
next
  case False
  then have "notes instrument = []" using assms by (simp add: surviving_def)
  then show ?thesis using False by (simp add: convert_track_def Let_def)
qed

lemma fold_max_mem: "fold max xs (x :: int) \<in> set (x # xs)"
proof (induction xs arbitrary: x)
  case Nil
  show ?case by simp
next
  case (Cons y ys)
  have m: "max y x = x \<or> max y x = y" by (simp add: max_def)
  have "fold max ys (max y x) \<in> set (max y x # ys)" by (rule Cons.IH)
  then have "fold max (y # ys) x \<in> insert (max y x) (set ys)" by simp
  then show ?case using m by auto
qed

lemma max_list_mem: "xs \<noteq> [] \<Longrightarrow> max_list xs \<in> set xs"
  using fold_max_mem by (cases xs) simp_all

lemma track_converts_small:
  assumes "resolution midi \<noteq> 0" and "notes instrument \<noteq> []"
    and "\<forall>n\<in>set (notes instrument).
           \<bar>time_to_tick midi (start n)\<bar> < 2 ^ 45 \<and> \<bar>time_to_tick midi (end_time n)\<bar> < 2 ^ 45"
  shows "track_converts midi instrument"
proof -
  let ?ctx = "track_context midi"
  let ?ns = "sort_key start (notes instrument)"
  let ?mt = "max_list (map (\<lambda>note. time_to_tick midi (end_time note)) ?ns)"
  have nz: "source_ppq ?ctx \<noteq> 0" and d: "dest_ppq ?ctx = 48"
    using assms(1) by (simp_all add: track_context_def)
  have small: "\<bar>t * dest_ppq ?ctx\<bar> < 2 ^ 52" if "\<bar>t\<bar> < 2 ^ 46" for t :: int
  proof -
    have "\<bar>t * 48\<bar> = \<bar>t\<bar> * 48" by (simp add: abs_mult)
    then show ?thesis unfolding d using that by simp
  qed
  have "length ?ns = length (notes instrument)" by simp
  then have "?ns \<noteq> []" using assms(2) by (metis length_0_conv)
  then have "?mt \<in> set (map (\<lambda>note. time_to_tick midi (end_time note)) ?ns)"
    by (intro max_list_mem) simp
  then obtain n where "n \<in> set (notes instrument)" "?mt = time_to_tick midi (end_time n)"
    by auto
  then have "\<bar>?mt\<bar> < 2 ^ 46" using assms(3) by fastforce
  then have 1: "\<not> isl (convert_time ?ctx ?mt)"
    using convert_time_small [OF nz small] by simp
  have 2: "\<forall>n\<in>set (notes instrument). note_converts midi ?ctx n"
  proof
    fix n assume "n \<in> set (notes instrument)"
    then have b: "\<bar>time_to_tick midi (start n)\<bar> < 2 ^ 45" "\<bar>time_to_tick midi (end_time n)\<bar> < 2 ^ 45"
      using assms(3) by blast+
    then have "\<bar>time_to_tick midi (start n)\<bar> < 2 ^ 46"
      and "\<bar>time_to_tick midi (end_time n) - time_to_tick midi (start n)\<bar> < 2 ^ 46"
      by simp_all
    then show "note_converts midi ?ctx n"
      using nz small by (intro note_converts_small) blast+
  qed
  from 1 2 show ?thesis unfolding track_converts_def by blast
qed

lemma convert_track_Inr_D:
  assumes "surviving instrument"
    and "convert_track midi (clip_data, lg) (track_num, instrument) = Inr r"
  shows "track_converts midi instrument"
proof -
  let ?ctx = "\<lparr>tick_offset = 0, source_ppq = resolution midi, dest_ppq = 48, scale_value_by = 1\<rparr>"
  let ?ns = "sort_key start (notes instrument)"
  let ?lanes = "organize_lanes ?ns"
  let ?mt = "max_list (map (\<lambda>note. time_to_tick midi (end_time note)) ?ns)"
  let ?lg1 = "lg @ [ProcessingTrack track_num (program instrument)]"
  have tc: "track_context midi = ?ctx" by (simp add: track_context_def)
  have nd: "\<not> is_drum instrument" and ne: "notes instrument \<noteq> []"
    using assms(1) by (simp_all add: surviving_def)
  from assms(2) obtain cm f where
    a: "convert_time ?ctx ?mt = Inr cm"
      "encode_lanes midi ?ctx track_num
         \<lparr>clip_max = cm, rows = [], laneh = [], last_start = - 1, last_end = - 1, logs = ?lg1\<rparr>
         ?lanes = Inr f"
    unfolding convert_track_def Let_def fst_conv snd_conv using nd ne
    by (auto split: sum.splits)
  have 1: "\<not> isl (convert_time ?ctx ?mt)" using a(1) by simp
  have l: "\<forall>lane\<in>set ?lanes. \<forall>n\<in>set (snd lane). note_converts midi ?ctx n"
    using a(2) by (rule encode_lanes_Inr_D)
  have 2: "\<forall>n\<in>set (notes instrument). note_converts midi ?ctx n"
  proof
    fix n assume "n \<in> set (notes instrument)"
    then have "n \<in> set ?ns" by simp
    then obtain lane where "lane \<in> set ?lanes" "n \<in> set (snd lane)"
      using organize_lanes_covers by blast
    then show "note_converts midi ?ctx n" using l by blast
  qed
  from 1 2 show ?thesis unfolding track_converts_def tc by blast
qed

lemma convert_track_surviving:
  assumes "surviving instrument" and "track_converts midi instrument"
  shows "\<exists>clip lg'. convert_track midi (clip_data, lg) (track_num, instrument)
                        = Inr (clip_data @ [clip], lg')
           \<and> clip_of_track midi instrument clip"
proof -
  let ?ctx = "\<lparr>tick_offset = 0, source_ppq = resolution midi, dest_ppq = 48, scale_value_by = 1\<rparr>"
  let ?ns = "sort_key start (notes instrument)"
  let ?lanes = "organize_lanes ?ns"
  let ?mt = "max_list (map (\<lambda>note. time_to_tick midi (end_time note)) ?ns)"
  let ?lg1 = "lg @ [ProcessingTrack track_num (program instrument)]"
  have tc: "track_context midi = ?ctx" by (simp add: track_context_def)
  have nd: "\<not> is_drum instrument" and ne: "notes instrument \<noteq> []"
    using assms(1) by (simp_all add: surviving_def)
  obtain cm where ct: "convert_time ?ctx ?mt = Inr cm"
    using assms(2) unfolding track_converts_def tc by (cases "convert_time ?ctx ?mt") auto
  let ?f0 = "\<lparr>clip_max = cm, rows = [], laneh = [], last_start = - 1, last_end = - 1, logs = ?lg1\<rparr>"
  have nc: "\<forall>n\<in>set (notes instrument). note_converts midi ?ctx n"
    using assms(2) unfolding track_converts_def tc by blast
  have "\<forall>lane\<in>set ?lanes. \<forall>n\<in>set (snd lane). note_converts midi ?ctx n"
  proof (intro ballI)
    fix lane n assume "lane \<in> set ?lanes" "n \<in> set (snd lane)"
    then have "n \<in> set ?ns" using organize_lanes_subset(1) by blast
    then show "note_converts midi ?ctx n" using nc by simp
  qed
  from encode_lanes_Inr [OF this, of track_num ?f0] obtain f ws where
    r: "encode_lanes midi ?ctx track_num ?f0 ?lanes = Inr f"
      "rows f = rows ?f0 @ map (lane_row midi ?ctx) ?lanes"
      "\<forall>lane\<in>set ?lanes. \<forall>n\<in>set (snd lane). t_dstart midi ?ctx n + t_ddur midi ?ctx n \<le> clip_max f"
    by blast
  have rf: "rows f = map (lane_row midi ?ctx) ?lanes" using r(2) by simp
  have sb: "sorted_by_int_y (rows f) = Inr (map (lane_row midi ?ctx) (sort_key fst ?lanes))"
    unfolding rf by (rule sorted_by_int_y_lane_rows)
  let ?clip = "\<lparr>note_rows = map (lane_row midi ?ctx) (sort_key fst ?lanes), length_ticks = clip_max f\<rparr>"
  have res: "\<exists>lg'. convert_track midi (clip_data, lg) (track_num, instrument)
                      = Inr (clip_data @ [?clip], lg')"
    unfolding convert_track_def Let_def fst_conv snd_conv
    using nd ne ct r(1) sb by simp
  have cov: "\<forall>n\<in>set (notes instrument). t_dstart midi ?ctx n + t_ddur midi ?ctx n \<le> clip_max f"
  proof
    fix n assume "n \<in> set (notes instrument)"
    then have "n \<in> set ?ns" by simp
    then obtain lane where "lane \<in> set ?lanes" "n \<in> set (snd lane)"
      using organize_lanes_covers by blast
    then show "t_dstart midi ?ctx n + t_ddur midi ?ctx n \<le> clip_max f" using r(3) by blast
  qed
  have "clip_of_track midi instrument ?clip"
    unfolding clip_of_track_def tc using nc cov by simp
  then show ?thesis using res by blast
qed

lemma convert_tracks_Inr:
  assumes "convert_tracks midi (clip_data, lg) trs = Inr (clips, lg')"
  shows "\<exists>new. clips = clip_data @ new
           \<and> list_all2 (clip_of_track midi) (filter surviving (map snd trs)) new"
  using assms
proof (induction trs arbitrary: clip_data lg)
  case Nil
  then show ?case by simp
next
  case (Cons tr trs)
  obtain track_num instrument where tr: "tr = (track_num, instrument)" by (cases tr)
  show ?case
  proof (cases "surviving instrument")
    case False
    then obtain lg1 where s: "convert_track midi (clip_data, lg) tr = Inr (clip_data, lg1)"
      using convert_track_skipped tr by blast
    then have "convert_tracks midi (clip_data, lg1) trs = Inr (clips, lg')"
      using Cons.prems by simp
    from Cons.IH [OF this] show ?thesis using False tr by simp
  next
    case True
    from Cons.prems obtain acc where "convert_track midi (clip_data, lg) tr = Inr acc"
      by (auto split: sum.splits)
    then have nz: "track_converts midi instrument"
      using convert_track_Inr_D [OF True] tr by blast
    from convert_track_surviving [OF True nz, of clip_data lg track_num] obtain clip lg1 where
      s: "convert_track midi (clip_data, lg) tr = Inr (clip_data @ [clip], lg1)"
        "clip_of_track midi instrument clip"
      using tr by blast
    then have "convert_tracks midi (clip_data @ [clip], lg1) trs = Inr (clips, lg')"
      using Cons.prems by simp
    from Cons.IH [OF this] obtain new where
      n: "clips = (clip_data @ [clip]) @ new"
        "list_all2 (clip_of_track midi) (filter surviving (map snd trs)) new"
      by blast
    have "clips = clip_data @ (clip # new)" using n(1) by simp
    moreover have "list_all2 (clip_of_track midi) (filter surviving (map snd (tr # trs))) (clip # new)"
      using n(2) s(2) True tr by simp
    ultimately show ?thesis by blast
  qed
qed

lemma convert_tracks_total:
  assumes "\<forall>instrument\<in>set (map snd trs). surviving instrument \<longrightarrow> track_converts midi instrument"
  shows "\<exists>clips lg'. convert_tracks midi (clip_data, lg) trs = Inr (clips, lg')"
  using assms
proof (induction trs arbitrary: clip_data lg)
  case Nil
  show ?case by simp
next
  case (Cons tr trs)
  obtain track_num instrument where tr: "tr = (track_num, instrument)" by (cases tr)
  have "\<exists>cd1 lg1. convert_track midi (clip_data, lg) tr = Inr (cd1, lg1)"
  proof (cases "surviving instrument")
    case True
    then have "track_converts midi instrument" using Cons.prems tr by simp
    from convert_track_surviving [OF True this, of clip_data lg track_num]
    show ?thesis using tr by blast
  next
    case False
    then show ?thesis using convert_track_skipped tr by blast
  qed
  then obtain cd1 lg1 where "convert_track midi (clip_data, lg) tr = Inr (cd1, lg1)" by blast
  moreover have "\<forall>instrument\<in>set (map snd trs). surviving instrument \<longrightarrow> track_converts midi instrument"
    using Cons.prems by simp
  ultimately show ?case using Cons.IH [of cd1 lg1] by simp
qed

lemma convert_midi_to_clips_Inr:
  assumes "convert_midi_to_clips midi = Inr (clips, lg)"
  shows "list_all2 (clip_of_track midi) (filter surviving (instruments midi)) clips"
proof -
  let ?trs = "zip [1 ..< Suc (length (instruments midi))] (instruments midi)"
  have "length [1 ..< Suc (length (instruments midi))] = length (instruments midi)"
    by (simp del: upt_Suc)
  then have "map snd ?trs = instruments midi" by (rule map_snd_zip)
  moreover from convert_tracks_Inr [of midi "[]" "[]" ?trs clips lg] assms
  have "list_all2 (clip_of_track midi) (filter surviving (map snd ?trs)) clips"
    by (simp add: convert_midi_to_clips_def)
  ultimately show ?thesis by simp
qed

lemma convert_midi_to_clips_total:
  assumes "\<forall>instrument\<in>set (instruments midi). surviving instrument \<longrightarrow> track_converts midi instrument"
  shows "\<exists>clips lg. convert_midi_to_clips midi = Inr (clips, lg)"
proof -
  let ?trs = "zip [1 ..< Suc (length (instruments midi))] (instruments midi)"
  have "length [1 ..< Suc (length (instruments midi))] = length (instruments midi)"
    by (simp del: upt_Suc)
  then have "map snd ?trs = instruments midi" by (rule map_snd_zip)
  then have "\<forall>instrument\<in>set (map snd ?trs). surviving instrument \<longrightarrow> track_converts midi instrument"
    using assms by simp
  then show ?thesis unfolding convert_midi_to_clips_def by (rule convert_tracks_total)
qed

lemma convert_midi_to_clips_small:
  assumes "resolution midi \<noteq> 0"
    and "\<forall>instrument\<in>set (instruments midi). \<forall>n\<in>set (notes instrument).
           \<bar>time_to_tick midi (start n)\<bar> < 2 ^ 45 \<and> \<bar>time_to_tick midi (end_time n)\<bar> < 2 ^ 45"
  shows "\<exists>clips lg. convert_midi_to_clips midi = Inr (clips, lg)"
proof (rule convert_midi_to_clips_total, intro ballI impI)
  fix instrument
  assume i: "instrument \<in> set (instruments midi)" and s: "surviving instrument"
  from s have "notes instrument \<noteq> []" by (simp add: surviving_def)
  with assms(1) show "track_converts midi instrument"
    using assms(2) i by (intro track_converts_small) blast+
qed

lemma clip_of_track_rows:
  assumes "clip_of_track midi instrument clip"
  shows "\<exists>lanes. note_rows clip = map (lane_row midi (track_context midi)) lanes
           \<and> sorted_wrt (<) (map fst lanes) \<and> distinct (map fst lanes)
           \<and> (\<forall>lane\<in>set lanes. set (snd lane) \<subseteq> set (notes instrument)
                  \<and> (\<forall>n\<in>set (snd lane). pitch n = fst lane))"
proof -
  let ?ol = "organize_lanes (sort_key start (notes instrument))"
  let ?lanes = "sort_key fst ?ol"
  have d: "distinct (map fst ?ol)" using lanes_inv_organize by (simp add: lanes_inv_def)
  have 1: "note_rows clip = map (lane_row midi (track_context midi)) ?lanes"
    using assms by (simp add: clip_of_track_def)
  have 2: "sorted_wrt (<) (map fst ?lanes)" and 3: "distinct (map fst ?lanes)"
    using sorted_keys_strict [OF d] by blast+
  have 4: "\<forall>lane\<in>set ?lanes. set (snd lane) \<subseteq> set (notes instrument)
              \<and> (\<forall>n\<in>set (snd lane). pitch n = fst lane)"
  proof
    fix lane assume "lane \<in> set ?lanes"
    then have l: "lane \<in> set ?ol" by simp
    show "set (snd lane) \<subseteq> set (notes instrument) \<and> (\<forall>n\<in>set (snd lane). pitch n = fst lane)"
      using organize_lanes_subset(1,2) [OF l] by simp
  qed
  from 1 2 3 4 show ?thesis by blast
qed

lemma clip_of_track_length:
  assumes "clip_of_track midi instrument clip" and "n \<in> set (notes instrument)"
  shows "\<exists>s d. convert_time (track_context midi) (time_to_tick midi (start n)) = Inr s
           \<and> convert_time (track_context midi)
                (time_to_tick midi (end_time n) - time_to_tick midi (start n)) = Inr d
           \<and> s + d \<le> length_ticks clip"
proof -
  have nc: "note_converts midi (track_context midi) n"
    using assms by (simp add: clip_of_track_def)
  have a: "convert_time (track_context midi) (time_to_tick midi (start n))
             = Inr (t_dstart midi (track_context midi) n)"
    by (rule note_converts_Inr(1) [OF nc])
  have b: "convert_time (track_context midi)
             (time_to_tick midi (end_time n) - time_to_tick midi (start n))
             = Inr (t_ddur midi (track_context midi) n)"
    by (rule note_converts_Inr(2) [OF nc])
  have "t_dstart midi (track_context midi) n + t_ddur midi (track_context midi) n \<le> length_ticks clip"
    using assms by (simp add: clip_of_track_def)
  then show ?thesis using a b by blast
qed

text \<open>
  C4. \<open>convert_midi_to_clips\<close> returns whenever the resolution is not zero and the start
  and end ticks of the notes stay below \<open>2 ^ 45\<close> in absolute value, and whenever it
  returns, its clips are those of the instruments that are no drum tracks and have
  notes, in order, such that for each of them: every note row of the clip is the row of a
  lane of notes of that instrument, and the length of the clip is at least the rescaled
  start plus the rescaled duration of every note of the instrument.
\<close>

theorem clip_length_covers_notes:
  "(resolution midi \<noteq> 0
    \<and> (\<forall>instrument\<in>set (instruments midi). \<forall>n\<in>set (notes instrument).
          \<bar>time_to_tick midi (start n)\<bar> < 2 ^ 45 \<and> \<bar>time_to_tick midi (end_time n)\<bar> < 2 ^ 45)
    \<longrightarrow> (\<exists>clips lg. convert_midi_to_clips midi = Inr (clips, lg)))
   \<and> (\<forall>clips lg. convert_midi_to_clips midi = Inr (clips, lg) \<longrightarrow>
         list_all2
           (\<lambda>instrument clip.
              (\<forall>row\<in>set (note_rows clip).
                 \<exists>lane. row = lane_row midi (track_context midi) lane
                   \<and> set (snd lane) \<subseteq> set (notes instrument))
              \<and> (\<forall>n\<in>set (notes instrument).
                    \<exists>s d. convert_time (track_context midi) (time_to_tick midi (start n)) = Inr s
                      \<and> convert_time (track_context midi)
                           (time_to_tick midi (end_time n) - time_to_tick midi (start n)) = Inr d
                      \<and> s + d \<le> length_ticks clip))
           (filter (\<lambda>instrument. \<not> is_drum instrument \<and> notes instrument \<noteq> []) (instruments midi))
           clips)"
proof (intro conjI allI impI)
  assume "resolution midi \<noteq> 0
    \<and> (\<forall>instrument\<in>set (instruments midi). \<forall>n\<in>set (notes instrument).
          \<bar>time_to_tick midi (start n)\<bar> < 2 ^ 45 \<and> \<bar>time_to_tick midi (end_time n)\<bar> < 2 ^ 45)"
  then show "\<exists>clips lg. convert_midi_to_clips midi = Inr (clips, lg)"
    using convert_midi_to_clips_small by blast
next
  fix clips lg
  assume "convert_midi_to_clips midi = Inr (clips, lg)"
  then have a: "list_all2 (clip_of_track midi) (filter surviving (instruments midi)) clips"
    by (rule convert_midi_to_clips_Inr)
  have s: "surviving = (\<lambda>instrument. \<not> is_drum instrument \<and> notes instrument \<noteq> [])"
    by (rule ext) (simp add: surviving_def)
  show "list_all2
           (\<lambda>instrument clip.
              (\<forall>row\<in>set (note_rows clip).
                 \<exists>lane. row = lane_row midi (track_context midi) lane
                   \<and> set (snd lane) \<subseteq> set (notes instrument))
              \<and> (\<forall>n\<in>set (notes instrument).
                    \<exists>s d. convert_time (track_context midi) (time_to_tick midi (start n)) = Inr s
                      \<and> convert_time (track_context midi)
                           (time_to_tick midi (end_time n) - time_to_tick midi (start n)) = Inr d
                      \<and> s + d \<le> length_ticks clip))
           (filter (\<lambda>instrument. \<not> is_drum instrument \<and> notes instrument \<noteq> []) (instruments midi))
           clips"
    using a unfolding s
  proof (rule list_all2_mono)
    fix instrument clip
    assume c: "clip_of_track midi instrument clip"
    from clip_of_track_rows [OF c] obtain lanes where
      l: "note_rows clip = map (lane_row midi (track_context midi)) lanes"
        "\<forall>lane\<in>set lanes. set (snd lane) \<subseteq> set (notes instrument)
            \<and> (\<forall>n\<in>set (snd lane). pitch n = fst lane)"
      by blast
    have 1: "\<forall>row\<in>set (note_rows clip).
               \<exists>lane. row = lane_row midi (track_context midi) lane
                 \<and> set (snd lane) \<subseteq> set (notes instrument)"
    proof
      fix row assume "row \<in> set (note_rows clip)"
      then obtain lane where "lane \<in> set lanes" "row = lane_row midi (track_context midi) lane"
        unfolding l(1) by auto
      then show "\<exists>lane. row = lane_row midi (track_context midi) lane
                 \<and> set (snd lane) \<subseteq> set (notes instrument)"
        using l(2) by blast
    qed
    have 2: "\<forall>n\<in>set (notes instrument).
               \<exists>s d. convert_time (track_context midi) (time_to_tick midi (start n)) = Inr s
                 \<and> convert_time (track_context midi)
                      (time_to_tick midi (end_time n) - time_to_tick midi (start n)) = Inr d
                 \<and> s + d \<le> length_ticks clip"
      using clip_of_track_length [OF c] by blast
    from 1 2 show "(\<forall>row\<in>set (note_rows clip).
                 \<exists>lane. row = lane_row midi (track_context midi) lane
                   \<and> set (snd lane) \<subseteq> set (notes instrument))
              \<and> (\<forall>n\<in>set (notes instrument).
                    \<exists>s d. convert_time (track_context midi) (time_to_tick midi (start n)) = Inr s
                      \<and> convert_time (track_context midi)
                           (time_to_tick midi (end_time n) - time_to_tick midi (start n)) = Inr d
                      \<and> s + d \<le> length_ticks clip)"
      by blast
  qed
qed

text \<open>
  C7. Whenever \<open>convert_midi_to_clips\<close> returns (and it does when the resolution is not
  zero and the start and end ticks of the notes stay below \<open>2 ^ 45\<close> in absolute value),
  every clip has its note rows in strictly increasing order of the integer their
  \<open>y\<close> holds, so no two rows of a clip share it; and that integer is the pitch of the notes
  encoded in the row.
\<close>

theorem note_rows_strictly_ascending:
  "(resolution midi \<noteq> 0
    \<and> (\<forall>instrument\<in>set (instruments midi). \<forall>n\<in>set (notes instrument).
          \<bar>time_to_tick midi (start n)\<bar> < 2 ^ 45 \<and> \<bar>time_to_tick midi (end_time n)\<bar> < 2 ^ 45)
    \<longrightarrow> (\<exists>clips lg. convert_midi_to_clips midi = Inr (clips, lg)))
   \<and> (\<forall>clips lg. convert_midi_to_clips midi = Inr (clips, lg) \<longrightarrow>
         (\<forall>clip\<in>set clips.
            \<exists>lanes. note_rows clip = map (lane_row midi (track_context midi)) lanes
              \<and> map (\<lambda>row. py_int (row_y row)) (note_rows clip) = map (\<lambda>lane. Some (fst lane)) lanes
              \<and> sorted_wrt (<) (map fst lanes) \<and> distinct (map fst lanes)
              \<and> (\<forall>lane\<in>set lanes. \<forall>n\<in>set (snd lane). pitch n = fst lane)))"
proof (intro conjI allI impI ballI)
  assume "resolution midi \<noteq> 0
    \<and> (\<forall>instrument\<in>set (instruments midi). \<forall>n\<in>set (notes instrument).
          \<bar>time_to_tick midi (start n)\<bar> < 2 ^ 45 \<and> \<bar>time_to_tick midi (end_time n)\<bar> < 2 ^ 45)"
  then show "\<exists>clips lg. convert_midi_to_clips midi = Inr (clips, lg)"
    using convert_midi_to_clips_small by blast
next
  fix clips lg clip
  assume "convert_midi_to_clips midi = Inr (clips, lg)" and c: "clip \<in> set clips"
  then have "list_all2 (clip_of_track midi) (filter surviving (instruments midi)) clips"
    using convert_midi_to_clips_Inr by blast
  then obtain instrument where "clip_of_track midi instrument clip"
    using c by (auto simp: list_all2_conv_all_nth in_set_conv_nth)
  from clip_of_track_rows [OF this] obtain lanes where
    l: "note_rows clip = map (lane_row midi (track_context midi)) lanes"
      "sorted_wrt (<) (map fst lanes)" "distinct (map fst lanes)"
      "\<forall>lane\<in>set lanes. set (snd lane) \<subseteq> set (notes instrument)
            \<and> (\<forall>n\<in>set (snd lane). pitch n = fst lane)"
    by blast
  have "map (\<lambda>row. py_int (row_y row)) (note_rows clip) = map (\<lambda>lane. Some (fst lane)) lanes"
    unfolding l(1) by (simp add: lane_row_def py_int_py_str)
  then show "\<exists>lanes. note_rows clip = map (lane_row midi (track_context midi)) lanes
              \<and> map (\<lambda>row. py_int (row_y row)) (note_rows clip) = map (\<lambda>lane. Some (fst lane)) lanes
              \<and> sorted_wrt (<) (map fst lanes) \<and> distinct (map fst lanes)
              \<and> (\<forall>lane\<in>set lanes. \<forall>n\<in>set (snd lane). pitch n = fst lane)"
    using l by blast
qed

lemma convert_example_midi:
  "convert_midi_to_clips example_midi = Inr (example_clips, example_log)"
  by code_simp

theorem clip_length_covers_notes_witness:
  "resolution example_midi \<noteq> 0
   \<and> convert_midi_to_clips example_midi = Inr (example_clips, example_log)
   \<and> filter (\<lambda>instrument. \<not> is_drum instrument \<and> notes instrument \<noteq> []) (instruments example_midi)
       = [hd (instruments example_midi)]
   \<and> hd (notes (hd (instruments example_midi)))
       = \<lparr>velocity = 90, pitch = 60, start = 50, end_time = 150\<rparr>
   \<and> convert_time (track_context example_midi) 50 = Inr 25
   \<and> convert_time (track_context example_midi) (150 - 50) = Inr 50
   \<and> (25 :: int) + 50 \<le> length_ticks (hd example_clips)
   \<and> length_ticks (hd example_clips) = 75"
proof -
  let ?n = "\<lparr>velocity = 90, pitch = 60, start = 50, end_time = 150\<rparr>"
  have h: "resolution example_midi \<noteq> 0" by (simp add: example_midi_def)
  have f: "filter (\<lambda>instrument. \<not> is_drum instrument \<and> notes instrument \<noteq> []) (instruments example_midi)
             = [hd (instruments example_midi)]"
    by (simp add: example_midi_def)
  have c: "example_clips = [hd example_clips]" by (simp add: example_clips_def)
  have n: "hd (notes (hd (instruments example_midi))) = ?n" by (simp add: example_midi_def)
  have m: "?n \<in> set (notes (hd (instruments example_midi)))" by (simp add: example_midi_def)
  have t: "time_to_tick example_midi (start ?n) = 50" "time_to_tick example_midi (end_time ?n) = 150"
    by (simp_all add: example_midi_def)
  have cs: "convert_time (track_context example_midi) 50 = Inr 25"
    and cd: "convert_time (track_context example_midi) (150 - 50) = Inr 50"
    by code_simp+
  have bd: "resolution example_midi \<noteq> 0
    \<and> (\<forall>instrument\<in>set (instruments example_midi). \<forall>n\<in>set (notes instrument).
          \<bar>time_to_tick example_midi (start n)\<bar> < 2 ^ 45
          \<and> \<bar>time_to_tick example_midi (end_time n)\<bar> < 2 ^ 45)"
    by (simp add: example_midi_def)
  from clip_length_covers_notes [of example_midi] bd
  have ex: "\<exists>clips lg. convert_midi_to_clips example_midi = Inr (clips, lg)" by blast
  from clip_length_covers_notes [of example_midi] convert_example_midi
  have "list_all2
           (\<lambda>instrument clip.
              (\<forall>row\<in>set (note_rows clip).
                 \<exists>lane. row = lane_row example_midi (track_context example_midi) lane
                   \<and> set (snd lane) \<subseteq> set (notes instrument))
              \<and> (\<forall>n\<in>set (notes instrument).
                    \<exists>s d. convert_time (track_context example_midi) (time_to_tick example_midi (start n)) = Inr s
                      \<and> convert_time (track_context example_midi)
                           (time_to_tick example_midi (end_time n) - time_to_tick example_midi (start n)) = Inr d
                      \<and> s + d \<le> length_ticks clip))
           (filter (\<lambda>instrument. \<not> is_drum instrument \<and> notes instrument \<noteq> []) (instruments example_midi))
           example_clips"
    by blast
  then have "\<forall>n\<in>set (notes (hd (instruments example_midi))).
         \<exists>s d. convert_time (track_context example_midi) (time_to_tick example_midi (start n)) = Inr s
           \<and> convert_time (track_context example_midi)
                (time_to_tick example_midi (end_time n) - time_to_tick example_midi (start n)) = Inr d
           \<and> s + d \<le> length_ticks (hd example_clips)"
    unfolding f by (subst (asm) c) simp
  with m obtain s d where
    sd: "convert_time (track_context example_midi) (time_to_tick example_midi (start ?n)) = Inr s"
      "convert_time (track_context example_midi)
         (time_to_tick example_midi (end_time ?n) - time_to_tick example_midi (start ?n)) = Inr d"
      "s + d \<le> length_ticks (hd example_clips)"
    by blast
  have "s = 25" using sd(1) cs unfolding t by simp
  moreover have "d = 50" using sd(2) cd unfolding t by simp
  ultimately have le: "(25 :: int) + 50 \<le> length_ticks (hd example_clips)" using sd(3) by simp
  have l: "length_ticks (hd example_clips) = 75" by (simp add: example_clips_def)
  show ?thesis using h f n cs cd le l convert_example_midi ex by blast
qed

theorem note_rows_strictly_ascending_witness:
  "resolution example_midi \<noteq> 0
   \<and> convert_midi_to_clips example_midi = Inr (example_clips, example_log)
   \<and> map (\<lambda>row. py_int (row_y row)) (note_rows (hd example_clips)) = [Some 48, Some 60]
   \<and> sorted_wrt (<) [48, 60 :: int]"
proof -
  have h: "resolution example_midi \<noteq> 0" by (simp add: example_midi_def)
  have m: "hd example_clips \<in> set example_clips" by (simp add: example_clips_def)
  have bd: "resolution example_midi \<noteq> 0
    \<and> (\<forall>instrument\<in>set (instruments example_midi). \<forall>n\<in>set (notes instrument).
          \<bar>time_to_tick example_midi (start n)\<bar> < 2 ^ 45
          \<and> \<bar>time_to_tick example_midi (end_time n)\<bar> < 2 ^ 45)"
    by (simp add: example_midi_def)
  from note_rows_strictly_ascending [of example_midi] bd
  have ex: "\<exists>clips lg. convert_midi_to_clips example_midi = Inr (clips, lg)" by blast
  from note_rows_strictly_ascending [of example_midi] convert_example_midi
  have a: "\<forall>clip\<in>set example_clips.
         \<exists>lanes. note_rows clip = map (lane_row example_midi (track_context example_midi)) lanes
           \<and> map (\<lambda>row. py_int (row_y row)) (note_rows clip) = map (\<lambda>lane. Some (fst lane)) lanes
           \<and> sorted_wrt (<) (map fst lanes) \<and> distinct (map fst lanes)
           \<and> (\<forall>lane\<in>set lanes. \<forall>n\<in>set (snd lane). pitch n = fst lane)"
    by blast
  from bspec [OF a m] obtain lanes where
    "note_rows (hd example_clips) = map (lane_row example_midi (track_context example_midi)) lanes
      \<and> map (\<lambda>row. py_int (row_y row)) (note_rows (hd example_clips)) = map (\<lambda>lane. Some (fst lane)) lanes
      \<and> sorted_wrt (<) (map fst lanes) \<and> distinct (map fst lanes)
      \<and> (\<forall>lane\<in>set lanes. \<forall>n\<in>set (snd lane). pitch n = fst lane)" ..
  note c = this
  have
    l: "map (\<lambda>row. py_int (row_y row)) (note_rows (hd example_clips)) = map (\<lambda>lane. Some (fst lane)) lanes"
      "sorted_wrt (<) (map fst lanes)"
    by (rule c [THEN conjunct2, THEN conjunct1])
       (rule c [THEN conjunct2, THEN conjunct2, THEN conjunct1])
  have b: "map (\<lambda>row. py_int (row_y row)) (note_rows (hd example_clips)) = [Some 48, Some 60]"
    by code_simp
  have "map (\<lambda>lane. Some (fst lane)) lanes = map Some (map fst lanes)" by simp
  then have "map Some (map fst lanes) = map Some [48, 60]" using l(1) b by simp
  then have "map fst lanes = [48, 60]" by (simp only: inj_map_eq_map [OF inj_Some])
  then have s: "sorted_wrt (<) [48, 60 :: int]" using l(2) by simp
  show ?thesis using h convert_example_midi b s ex by blast
qed

end
